theory Spec2Isabelle
  imports Complex_Main
begin

section \<open>Keep2Share downloader: chunk planning, resume, retry, assembly, link acquisition\<close>

text \<open>
  A shallow embedding of \<^verbatim>\<open>src/main.py\<close> (class \<^verbatim>\<open>Downloader\<close>), \<^verbatim>\<open>src/k2s.py\<close>
  (class \<^verbatim>\<open>K2SAPI\<close>) and the parts of \<^verbatim>\<open>src/utils.py\<close> they use.
  Python integers are \<open>int\<close>, loop indices of \<^verbatim>\<open>range\<close> are \<open>nat\<close>, a Python float is
  the rational number it stands for, exceptions are values of a sum type, the file system
  is a map from paths to byte lists, and every remote answer is a parameter of the model
  (an oracle indexed by the call it answers).
\<close>

subsection \<open>Python exceptions that the modelled code can raise\<close>

datatype py_error =
    ZeroDivisionError
  | OverflowError
  | K2SError
  | FileNotFoundError
  | OtherException

subsection \<open>Part-file names\<close>

text \<open>
  \<^verbatim>\<open>os.path.join(pathlib_tmp, f"{self.filename}.part{str(i).zfill(3)}")\<close> with
  \<^verbatim>\<open>pathlib_tmp = os.path.join("tmp")\<close>, on a POSIX path module: a second component
  that starts with a slash replaces the first.
\<close>

definition digit_char :: "nat \<Rightarrow> char" where
  "digit_char d = char_of (48 + d)"

fun str_nat :: "nat \<Rightarrow> string" where
  "str_nat n = (if n < 10 then [digit_char n] else str_nat (n div 10) @ [digit_char (n mod 10)])"

declare str_nat.simps [simp del]

definition zfill :: "nat \<Rightarrow> string \<Rightarrow> string" where
  "zfill w s = replicate (w - length s) (CHR ''0'') @ s"

definition path_join :: "string \<Rightarrow> string \<Rightarrow> string" where
  "path_join a b =
     (case b of
        c # _ \<Rightarrow> if c = CHR ''/'' then b
                 else if a = [] \<or> last a = CHR ''/'' then a @ b else a @ ''/'' @ b
      | [] \<Rightarrow> if a = [] \<or> last a = CHR ''/'' then a else a @ ''/'')"

definition part_path :: "string \<Rightarrow> nat \<Rightarrow> string" where
  "part_path fname i = path_join ''tmp'' (fname @ ''.part'' @ zfill 3 (str_nat i))"

subsection \<open>Python floats\<close>

text \<open>
  A float is an IEEE 754 double: zero, or \<open>m * 2^e\<close> with a mantissa \<open>m\<close> of at most 53
  bits and \<open>- 1074 \<le> e\<close>, of magnitude below \<open>2^1024\<close>. The quotient \<^verbatim>\<open>a / b\<close> of two
  Python integers is the double nearest to the exact quotient, a tie going to the even
  mantissa; it raises \<^verbatim>\<open>ZeroDivisionError\<close> for \<open>b = 0\<close> and \<^verbatim>\<open>OverflowError\<close> when the
  rounded quotient does not fit. The conversion of an integer to a float rounds in the
  same way.
\<close>

text \<open>\<^verbatim>\<open>int.bit_length()\<close> of a positive integer.\<close>

fun bit_length :: "int \<Rightarrow> nat" where
  "bit_length n = (if n \<le> 0 then 0 else Suc (bit_length (n div 2)))"

declare bit_length.simps [simp del]

text \<open>
  For positive \<open>n\<close> and \<open>d\<close>, the exponent \<open>t\<close> with \<open>2^t \<le> n / d < 2^(t + 1)\<close>: it is
  the difference of the bit lengths or one less.
\<close>

definition floor_log2 :: "int \<Rightarrow> int \<Rightarrow> int" where
  "floor_log2 n d =
     (let g = int (bit_length n) - int (bit_length d)
      in if (2::rat) powi g \<le> of_int n / of_int d then g else g - 1)"

definition round_half_even :: "rat \<Rightarrow> int" where
  "round_half_even y =
     (let f = \<lfloor>y\<rfloor>; r = y - of_int f
      in if r < 1 / 2 then f
         else if 1 / 2 < r then f + 1
         else if even f then f else f + 1)"

text \<open>
  The double nearest to \<open>n / d\<close> for positive \<open>n\<close> and \<open>d\<close>: the quotient is scaled so
  that its integer part has 53 bits (fewer in the subnormal range, where the exponent
  stays at \<open>- 1074\<close>), rounded to an integer and scaled back. \<open>None\<close> is the overflow.
\<close>

definition float_quotient :: "int \<Rightarrow> int \<Rightarrow> rat option" where
  "float_quotient n d =
     (let e = max (floor_log2 n d - 52) (- 1074);
          m = round_half_even (of_int n / of_int d * 2 powi (- e));
          v = of_int m * 2 powi e
      in if 2 powi 1024 \<le> v then None else Some v)"

text \<open>\<^verbatim>\<open>a / b\<close> on integers.\<close>

definition true_divide :: "int \<Rightarrow> int \<Rightarrow> py_error + rat" where
  "true_divide a b =
     (if b = 0 then Inl ZeroDivisionError
      else if a = 0 then Inr 0
      else case float_quotient \<bar>a\<bar> \<bar>b\<bar> of
             None \<Rightarrow> Inl OverflowError
           | Some v \<Rightarrow> Inr (if (a < 0) = (b < 0) then v else - v))"

text \<open>The conversion of an integer to a float, as in \<^verbatim>\<open>float(n)\<close>.\<close>

definition int_to_float :: "int \<Rightarrow> py_error + rat" where
  "int_to_float n =
     (if n = 0 then Inr 0
      else case float_quotient \<bar>n\<bar> 1 of
             None \<Rightarrow> Inl OverflowError
           | Some v \<Rightarrow> Inr (if 0 < n then v else - v))"

text \<open>
  \<^verbatim>\<open>human_readable_bytes\<close> of \<^verbatim>\<open>src/utils.py\<close>, called on an integer. Its result is a string
  that is only printed, so the model keeps whether it raises. It converts its argument
  to a float once, in \<^verbatim>\<open>"%3.3f %s" % (num, x)\<close> when the argument is below 1024 and in
  \<^verbatim>\<open>num /= 1024.0\<close> otherwise, and works on floats of smaller magnitude afterwards.
\<close>

definition human_readable_bytes :: "int \<Rightarrow> py_error + unit" where
  "human_readable_bytes num =
     (case int_to_float num of Inl e \<Rightarrow> Inl e | Inr v \<Rightarrow> Inr ())"

subsection \<open>Segment planning (step 5 of \<^verbatim>\<open>Downloader.start\<close>)\<close>

record chunk =
  c_id :: nat
  c_start :: int
  c_end :: int
  c_size :: int
  c_filename :: string

text \<open>
  \<^verbatim>\<open>math.ceil(total_size / self.split_size)\<close>: the quotient is a float, and its ceiling is
  an integer again.
\<close>

definition num_splits :: "int \<Rightarrow> int \<Rightarrow> py_error + int" where
  "num_splits total_size split_size =
     (case true_divide total_size split_size of
        Inl e \<Rightarrow> Inl e
      | Inr q \<Rightarrow> Inr \<lceil>q\<rceil>)"

definition mk_chunk :: "string \<Rightarrow> int \<Rightarrow> int \<Rightarrow> nat \<Rightarrow> chunk" where
  "mk_chunk fname total_size split_size i =
     (let start = int i * split_size;
          end = min ((int i + 1) * split_size - 1) (total_size - 1)
      in \<lparr>c_id = i, c_start = start, c_end = end, c_size = end - start + 1,
          c_filename = part_path fname i\<rparr>)"

text \<open>
  Lines 89 to 105: the number of chunks, the message that prints it together with
  \<^verbatim>\<open>human_readable_bytes(self.split_size)\<close>, and the loop over \<^verbatim>\<open>range(num_splits)\<close>, which
  is empty for a count that is zero or negative.
\<close>

definition prepare_chunks :: "string \<Rightarrow> int \<Rightarrow> int \<Rightarrow> py_error + chunk list" where
  "prepare_chunks fname total_size split_size =
     (case num_splits total_size split_size of
        Inl e \<Rightarrow> Inl e
      | Inr n \<Rightarrow>
          (case human_readable_bytes split_size of
             Inl e \<Rightarrow> Inl e
           | Inr _ \<Rightarrow> Inr (map (mk_chunk fname total_size split_size) [0..<nat n])))"

subsection \<open>The file system\<close>

text \<open>
  Files are byte strings under a path (\<open>char\<close> is an 8-bit byte). Directories are not
  modelled, and every file-system call is taken to succeed.
\<close>

type_synonym bytes = "char list"
type_synonym filesystem = "string \<rightharpoonup> bytes"

subsection \<open>Assembly (\<^verbatim>\<open>Downloader._assemble_file\<close>)\<close>

datatype assemble_result = Download_complete | Missing_chunk nat

text \<open>
  \<^verbatim>\<open>outfile.write\<close> on the handle opened on the destination: the data is added to the
  file the path names, as long as the path has not been removed since. Part paths made by
  the planner never equal the destination, so for them the first case is the only one.
\<close>

definition write_open :: "filesystem \<Rightarrow> string \<Rightarrow> bytes \<Rightarrow> filesystem" where
  "write_open fs path data =
     (case fs path of Some old \<Rightarrow> fs(path \<mapsto> old @ data) | None \<Rightarrow> fs)"

fun assemble_loop :: "string \<Rightarrow> chunk list \<Rightarrow> filesystem \<Rightarrow> filesystem \<times> assemble_result" where
  "assemble_loop out [] fs = (fs, Download_complete)"
| "assemble_loop out (c # cs) fs =
     (case fs (c_filename c) of
        Some data \<Rightarrow> assemble_loop out cs ((write_open fs out data)(c_filename c := None))
      | None \<Rightarrow> (fs, Missing_chunk (c_id c)))"

text \<open>
  The destination is removed if it exists and opened with mode \<^verbatim>\<open>wb\<close>, which leaves an
  empty file, before any part is looked at.
\<close>

definition assemble_file :: "string \<Rightarrow> chunk list \<Rightarrow> filesystem \<Rightarrow> filesystem \<times> assemble_result" where
  "assemble_file filename chunks fs = assemble_loop filename chunks (fs(filename \<mapsto> []))"

subsection \<open>Fetching one chunk (\<^verbatim>\<open>Downloader._download_chunk\<close>)\<close>

text \<open>
  What one ranged \<^verbatim>\<open>requests.get\<close> can do: deliver a body that is streamed to the part
  file, fail \<^verbatim>\<open>raise_for_status\<close> with a status code, raise before any byte is written,
  or raise in the middle of the stream after some bytes were written.
\<close>

datatype response =
    Body bytes
  | HTTPError int
  | RequestFailed
  | BrokenStream bytes

text \<open>The answer to the request for a URL and a byte range at a given attempt.\<close>

type_synonym network = "string \<Rightarrow> int \<Rightarrow> int \<Rightarrow> nat \<Rightarrow> response"

datatype dl_event =
    Removed string
  | Submitted nat string
  | Request nat string int int
  | RateLimitWait int
  | RetryWait int

record session =
  s_fs :: filesystem
  s_progress :: int
  s_events :: "dl_event list"

datatype dl_outcome = Written | Raised | Exhausted

definition max_retries :: nat where
  "max_retries = 5"

definition rate_limited :: "int \<Rightarrow> bool" where
  "rate_limited code \<longleftrightarrow> code \<in> set [429, 509, 503]"

definition log_event :: "dl_event \<Rightarrow> session \<Rightarrow> session" where
  "log_event e s = s\<lparr>s_events := s_events s @ [e]\<rparr>"

definition stream_to_file :: "string \<Rightarrow> bytes \<Rightarrow> session \<Rightarrow> session" where
  "stream_to_file path data s =
     s\<lparr>s_fs := (s_fs s)(path \<mapsto> data), s_progress := s_progress s + int (length data)\<rparr>"

text \<open>
  The body of \<^verbatim>\<open>for attempt in range(max_retries)\<close>. A rate-limit status sleeps
  \<^verbatim>\<open>(attempt + 1) * 5\<close> seconds and continues, also on the last attempt, after which the
  loop ends and the function returns without a file (\<open>Exhausted\<close>). Any other status
  raises from inside the handler. Any other exception raises on the last attempt and
  sleeps two seconds before the next one otherwise.
\<close>

fun retry_loop :: "network \<Rightarrow> string \<Rightarrow> chunk \<Rightarrow> nat list \<Rightarrow> session \<Rightarrow> session \<times> dl_outcome" where
  "retry_loop net url c [] s = (s, Exhausted)"
| "retry_loop net url c (attempt # rest) s =
     (let s1 = log_event (Request (c_id c) url (c_start c) (c_end c)) s in
      case net url (c_start c) (c_end c) attempt of
        Body data \<Rightarrow> (stream_to_file (c_filename c) data s1, Written)
      | HTTPError code \<Rightarrow>
          if rate_limited code
          then retry_loop net url c rest (log_event (RateLimitWait ((int attempt + 1) * 5)) s1)
          else (s1, Raised)
      | RequestFailed \<Rightarrow>
          if attempt = max_retries - 1 then (s1, Raised)
          else retry_loop net url c rest (log_event (RetryWait 2) s1)
      | BrokenStream data \<Rightarrow>
          if attempt = max_retries - 1 then (stream_to_file (c_filename c) data s1, Raised)
          else retry_loop net url c rest
                 (log_event (RetryWait 2) (stream_to_file (c_filename c) data s1)))"

definition download_chunk :: "network \<Rightarrow> string \<Rightarrow> chunk \<Rightarrow> session \<Rightarrow> session \<times> dl_outcome" where
  "download_chunk net url c s = retry_loop net url c [0..<max_retries] s"

subsection \<open>Resume check and download loop (step 6 of \<^verbatim>\<open>Downloader.start\<close>)\<close>

type_synonym task = "string \<times> chunk"

text \<open>
  \<^verbatim>\<open>download_urls[chunk['id'] % len(download_urls)]\<close>; the modulus raises for an empty
  list (which \<^verbatim>\<open>start\<close> has excluded before).
\<close>

definition submit :: "string list \<Rightarrow> chunk \<Rightarrow> session \<times> task list \<Rightarrow> py_error + session \<times> task list" where
  "submit urls c st =
     (if urls = [] then Inl ZeroDivisionError
      else (let url = urls ! (c_id c mod length urls)
            in Inr (log_event (Submitted (c_id c) url) (fst st), snd st @ [(url, c)])))"

definition resume_step :: "string list \<Rightarrow> chunk \<Rightarrow> session \<times> task list \<Rightarrow> py_error + session \<times> task list" where
  "resume_step urls c st =
     (case s_fs (fst st) (c_filename c) of
        Some data \<Rightarrow>
          if int (length data) = c_size c
          then Inr ((fst st)\<lparr>s_progress := s_progress (fst st) + c_size c\<rparr>, snd st)
          else submit urls c
                 (log_event (Removed (c_filename c))
                    ((fst st)\<lparr>s_fs := (s_fs (fst st))(c_filename c := None)\<rparr>), snd st)
      | None \<Rightarrow> submit urls c st)"

fun resume_loop :: "string list \<Rightarrow> chunk list \<Rightarrow> session \<times> task list \<Rightarrow> py_error + session \<times> task list" where
  "resume_loop urls [] st = Inr st"
| "resume_loop urls (c # cs) st =
     (case resume_step urls c st of
        Inl e \<Rightarrow> Inl e
      | Inr st' \<Rightarrow> resume_loop urls cs st')"

text \<open>
  The submitted tasks run on a pool of worker threads. A task reads and writes only the
  part file of its own chunk and adds to the progress counter, and the submitting loop
  looks only at the part file of the chunk it is at, so the tasks are run here one after
  the other, in the order of their submission, after the loop. A task that raises is
  caught where its future is collected; its chunk id is kept.
\<close>

fun run_tasks :: "network \<Rightarrow> task list \<Rightarrow> session \<Rightarrow> session \<times> nat list" where
  "run_tasks net [] s = (s, [])"
| "run_tasks net ((url, c) # ts) s =
     (case download_chunk net url c s of
        (s', outcome) \<Rightarrow>
          (case run_tasks net ts s' of
             (s'', failed) \<Rightarrow> (s'', (if outcome = Raised then [c_id c] else []) @ failed)))"

record download_report =
  d_session :: session
  d_failed :: "nat list"
  d_assembled :: assemble_result

text \<open>
  Steps 6 and 7: \<^verbatim>\<open>ThreadPoolExecutor(max_workers=self.threads)\<close> raises \<^verbatim>\<open>ValueError\<close>
  for a worker count that is not positive; assembly runs after the pool has finished,
  whatever the tasks did.
\<close>

definition download_and_assemble ::
  "network \<Rightarrow> int \<Rightarrow> string \<Rightarrow> string list \<Rightarrow> chunk list \<Rightarrow> filesystem \<Rightarrow> py_error + download_report" where
  "download_and_assemble net threads filename urls chunks fs =
     (if threads \<le> 0 then Inl OtherException
      else case resume_loop urls chunks (\<lparr>s_fs = fs, s_progress = 0, s_events = []\<rparr>, []) of
             Inl e \<Rightarrow> Inl e
           | Inr (s, tasks) \<Rightarrow>
               (case run_tasks net tasks s of
                  (s', failed) \<Rightarrow>
                    (case assemble_file filename chunks (s_fs s') of
                       (fs', res) \<Rightarrow>
                         Inr \<lparr>d_session = s'\<lparr>s_fs := fs'\<rparr>, d_failed = failed, d_assembled = res\<rparr>)))"


subsection \<open>Link acquisition (\<^verbatim>\<open>K2SAPI\<close> in \<^verbatim>\<open>src/k2s.py\<close>)\<close>

text \<open>
  The JSON answers of the hosting API are records of optional fields (a key of the
  dictionary may be missing); a field that is present holds a value of the expected type.
  An answer of \<open>None\<close> from an oracle stands for a call that raises (network error,
  answer that is not a JSON object).
\<close>

record captcha_data =
  cd_captcha_url :: "string option"
  cd_challenge :: "string option"

record geturl_response =
  r_status :: "string option"
  r_message :: "string option"
  r_time_wait :: "int option"
  r_url :: "string option"
  r_free_download_key :: "string option"

text \<open>
  The collaborators of one session: the n-th call of \<^verbatim>\<open>requestCaptcha\<close>, the n-th
  answer of the captcha solver, the \<^verbatim>\<open>getUrl\<close> exchange made at the n-th position of the
  candidate sequence, and the n-th \<^verbatim>\<open>getUrl\<close> call made with the download key.
\<close>

record remote =
  captcha_api :: "nat \<Rightarrow> captcha_data option"
  solver :: "nat \<Rightarrow> string option"
  exchange_api :: "nat \<Rightarrow> geturl_response option"
  mint_api :: "nat \<Rightarrow> string option option"

datatype k2s_event =
    RequestCaptcha
  | SolveCaptcha string
  | Exchange "string option" string string string "geturl_response option"
  | Wait int
  | Mint "string option" string string

record link_state =
  ls_captcha :: captcha_data
  ls_response :: string
  ls_captchas :: nat
  ls_solves :: nat
  ls_trace :: "k2s_event list"

definition get_proxy_dict :: "string option \<Rightarrow> string option" where
  "get_proxy_dict proxy =
     (case proxy of
        Some p \<Rightarrow> if p \<noteq> [] then Some (''http://'' @ p) else None
      | None \<Rightarrow> None)"

definition request_captcha :: "remote \<Rightarrow> link_state \<Rightarrow> captcha_data option \<times> link_state" where
  "request_captcha env st =
     (captcha_api env (ls_captchas st),
      st\<lparr>ls_captchas := Suc (ls_captchas st), ls_trace := ls_trace st @ [RequestCaptcha]\<rparr>)"

definition solve_captcha :: "remote \<Rightarrow> string \<Rightarrow> link_state \<Rightarrow> string option \<times> link_state" where
  "solve_captcha env url st =
     (solver env (ls_solves st),
      st\<lparr>ls_solves := Suc (ls_solves st), ls_trace := ls_trace st @ [SolveCaptcha url]\<rparr>)"

text \<open>
  The initial captcha, outside the \<^verbatim>\<open>try\<close>: \<^verbatim>\<open>request_captcha\<close> wraps every failure in
  \<^verbatim>\<open>K2SError\<close>; a missing \<^verbatim>\<open>captcha_url\<close> key and a failing solver raise something else.
\<close>

definition initial_captcha :: "remote \<Rightarrow> link_state \<times> py_error option" where
  "initial_captcha env =
     (let st0 = \<lparr>ls_captcha = \<lparr>cd_captcha_url = None, cd_challenge = None\<rparr>, ls_response = [],
                 ls_captchas = 0, ls_solves = 0, ls_trace = []\<rparr>
      in case request_captcha env st0 of
           (None, st1) \<Rightarrow> (st1, Some K2SError)
         | (Some cd, st1) \<Rightarrow>
             (let st2 = st1\<lparr>ls_captcha := cd\<rparr>
              in case cd_captcha_url cd of
                   None \<Rightarrow> (st2, Some OtherException)
                 | Some url \<Rightarrow>
                     (case solve_captcha env url st2 of
                        (None, st3) \<Rightarrow> (st3, Some OtherException)
                      | (Some answer, st3) \<Rightarrow> (st3\<lparr>ls_response := answer\<rparr>, None))))"

text \<open>
  The branch for \<^verbatim>\<open>"Invalid captcha code"\<close>, inside the \<^verbatim>\<open>try\<close>: whatever raises here is
  caught by \<^verbatim>\<open>except Exception\<close>, and every path ends in \<^verbatim>\<open>continue\<close>. An assignment
  whose right side raised has not happened.
\<close>

definition refresh_captcha :: "remote \<Rightarrow> link_state \<Rightarrow> link_state" where
  "refresh_captcha env st =
     (case request_captcha env st of
        (None, st1) \<Rightarrow> st1
      | (Some cd, st1) \<Rightarrow>
          (let st2 = st1\<lparr>ls_captcha := cd\<rparr>
           in case cd_captcha_url cd of
                None \<Rightarrow> st2
              | Some url \<Rightarrow>
                  (case solve_captcha env url st2 of
                     (None, st3) \<Rightarrow> st3
                   | (Some answer, st3) \<Rightarrow> st3\<lparr>ls_response := answer\<rparr>)))"

text \<open>How one pass through the body of \<^verbatim>\<open>for proxy in proxies\<close> ends.\<close>

datatype loop_exit =
    Raise py_error
  | Return_url string
  | Break "string option" "string option"

datatype step_result = Continue | Exit loop_exit

definition exchange_step ::
  "remote \<Rightarrow> string \<Rightarrow> string option \<Rightarrow> nat \<Rightarrow> link_state \<Rightarrow> step_result \<times> link_state" where
  "exchange_step env file_id proxy i st =
     (case cd_challenge (ls_captcha st) of
        None \<Rightarrow> (Continue, st)
      | Some ch \<Rightarrow>
          (let res = exchange_api env i;
               st1 = st\<lparr>ls_trace := ls_trace st @
                         [Exchange (get_proxy_dict proxy) file_id ch (ls_response st) res]\<rparr>
           in case res of
                None \<Rightarrow> (Continue, st1)
              | Some resp \<Rightarrow>
                  if r_status resp = Some ''error'' then
                    (let msg = (case r_message resp of Some m \<Rightarrow> m | None \<Rightarrow> [])
                     in if msg = ''Invalid captcha code'' then (Continue, refresh_captcha env st1)
                        else if msg = ''File not found'' then (Exit (Raise FileNotFoundError), st1)
                        else (Continue, st1))
                  else
                    (case r_time_wait resp of
                       Some wait_time \<Rightarrow>
                         if wait_time > 60 then (Continue, st1)
                         else if wait_time < 0 then (Continue, st1)
                         else (Exit (Break (r_free_download_key resp) proxy),
                               st1\<lparr>ls_trace := ls_trace st1 @ [Wait wait_time]\<rparr>)
                     | None \<Rightarrow>
                         (case r_url resp of
                            Some u \<Rightarrow> (Exit (Return_url u), st1)
                          | None \<Rightarrow>
                              (case r_free_download_key resp of
                                 Some k \<Rightarrow> (Exit (Break (Some k) proxy), st1)
                               | None \<Rightarrow> (Continue, st1))))))"

text \<open>
  The \<^verbatim>\<open>for\<close> loop over the candidates: \<^verbatim>\<open>continue\<close> goes on with the rest of the list.
  \<open>None\<close> is the loop running off its end.
\<close>

fun exchange_loop ::
  "remote \<Rightarrow> string \<Rightarrow> string option list \<Rightarrow> nat \<Rightarrow> link_state \<Rightarrow> loop_exit option \<times> link_state" where
  "exchange_loop env file_id [] i st = (None, st)"
| "exchange_loop env file_id (proxy # rest) i st =
     (case exchange_step env file_id proxy i st of
        (Continue, st') \<Rightarrow> exchange_loop env file_id rest (Suc i) st'
      | (Exit e, st') \<Rightarrow> (Some e, st'))"

definition mint_urls :: "remote \<Rightarrow> nat list \<Rightarrow> string list" where
  "mint_urls env js =
     concat (map (\<lambda>j. case mint_api env j of
                         Some (Some u) \<Rightarrow> if u \<noteq> [] then [u] else []
                       | _ \<Rightarrow> []) js)"

definition generate_download_urls ::
  "remote \<Rightarrow> string list option \<Rightarrow> string \<Rightarrow> int \<Rightarrow> (py_error + string list) \<times> k2s_event list" where
  "generate_download_urls env proxy_manager file_id count =
     (let proxies = (case proxy_manager of Some ps \<Rightarrow> map Some ps | None \<Rightarrow> [None])
      in case initial_captcha env of
           (st, Some e) \<Rightarrow> (Inl e, ls_trace st)
         | (st, None) \<Rightarrow>
             (case exchange_loop env file_id proxies 0 st of
                (Some (Raise e), st') \<Rightarrow> (Inl e, ls_trace st')
              | (Some (Return_url u), st') \<Rightarrow> (Inr [u], ls_trace st')
              | (None, st') \<Rightarrow> (Inl K2SError, ls_trace st')
              | (Some (Break key working_proxy), st') \<Rightarrow>
                  (case key of
                     None \<Rightarrow> (Inl K2SError, ls_trace st')
                   | Some k \<Rightarrow>
                       if k = [] then (Inl K2SError, ls_trace st')
                       else (Inr (mint_urls env [0..<nat count]),
                             ls_trace st' @
                               map (\<lambda>j. Mint (get_proxy_dict working_proxy) file_id k) [0..<nat count]))))"

subsection \<open>File information (\<^verbatim>\<open>K2SAPI.get_file_info\<close>, \<^verbatim>\<open>get_name\<close>)\<close>

record file_info =
  fi_is_available :: "bool option"
  fi_name :: "string option"

record info_response =
  i_status :: "string option"
  i_files :: "file_info list"

text \<open>
  Every exception raised inside the \<^verbatim>\<open>try\<close>, the \<^verbatim>\<open>FileNotFoundError\<close> for an
  unavailable file included, is caught by \<^verbatim>\<open>except Exception\<close> and raised again as
  \<^verbatim>\<open>K2SError\<close>.
\<close>

definition get_file_info :: "info_response option \<Rightarrow> py_error + file_info" where
  "get_file_info answer =
     (case answer of
        None \<Rightarrow> Inl K2SError
      | Some r \<Rightarrow>
          (case i_files r of
             f # _ \<Rightarrow>
               if i_status r = Some ''success''
               then (if fi_is_available f = Some False then Inl K2SError else Inr f)
               else Inl K2SError
           | [] \<Rightarrow> Inl K2SError))"

definition get_name :: "info_response option \<Rightarrow> py_error + string" where
  "get_name answer =
     (case get_file_info answer of
        Inl e \<Rightarrow> Inl e
      | Inr info \<Rightarrow>
          (case fi_name info of
             Some n \<Rightarrow> if n \<noteq> [] then Inr n else Inr ''unknown_file''
           | None \<Rightarrow> Inr ''unknown_file''))"

subsection \<open>A whole session (\<^verbatim>\<open>Downloader.start\<close>)\<close>

record config =
  cfg_file_id :: string
  cfg_filename :: "string option"
  cfg_split_size :: int
  cfg_threads :: int
  cfg_use_proxies :: bool
  cfg_refresh_proxies :: bool
  cfg_proxy_file :: "string list"

text \<open>
  What the session meets outside: the answer of \<^verbatim>\<open>getFilesInfo\<close>, the list that
  \<^verbatim>\<open>fetch_proxies\<close> leaves in the proxy manager, the link-acquisition collaborators, the
  \<^verbatim>\<open>content-length\<close> that the \<^verbatim>\<open>HEAD\<close> request gives for a URL (0 when the header is
  missing, \<open>None\<close> when the request or the conversion raises), and the answers to the
  ranged requests.
\<close>

record world =
  w_info :: "info_response option"
  w_fetched :: "string list"
  w_remote :: remote
  w_head :: "string \<Rightarrow> int option"
  w_network :: network

datatype outcome =
    Name_not_found
  | Name_error
  | Link_not_found
  | Link_error
  | No_urls
  | No_size
  | Uncaught py_error
  | Ran download_report

record run =
  run_outcome :: outcome
  run_fs :: filesystem
  run_link_trace :: "k2s_event list"

definition prepare_proxies :: "config \<Rightarrow> world \<Rightarrow> string list option" where
  "prepare_proxies cfg w =
     (if cfg_use_proxies cfg
      then (if cfg_refresh_proxies cfg \<or> cfg_proxy_file cfg = []
            then Some (w_fetched w) else Some (cfg_proxy_file cfg))
      else None)"

definition resolve_filename :: "config \<Rightarrow> world \<Rightarrow> py_error + string" where
  "resolve_filename cfg w =
     (case cfg_filename cfg of
        Some n \<Rightarrow> if n \<noteq> [] then Inr n else get_name (w_info w)
      | None \<Rightarrow> get_name (w_info w))"

text \<open>
  The steps of \<^verbatim>\<open>start\<close> in their order. An exception that \<^verbatim>\<open>start\<close> does not catch
  (from the message that prints the file size through \<^verbatim>\<open>human_readable_bytes\<close>, from
  planning, from the thread pool) ends the session as \<open>Uncaught\<close>.
\<close>

definition start :: "config \<Rightarrow> world \<Rightarrow> filesystem \<Rightarrow> run" where
  "start cfg w fs =
     (case resolve_filename cfg w of
        Inl e \<Rightarrow>
          \<lparr>run_outcome = (if e = FileNotFoundError then Name_not_found else Name_error),
           run_fs = fs, run_link_trace = []\<rparr>
      | Inr filename \<Rightarrow>
          (case generate_download_urls (w_remote w) (prepare_proxies cfg w)
                  (cfg_file_id cfg) (cfg_threads cfg) of
             (Inl e, tr) \<Rightarrow>
               \<lparr>run_outcome = (if e = FileNotFoundError then Link_not_found else Link_error),
                run_fs = fs, run_link_trace = tr\<rparr>
           | (Inr [], tr) \<Rightarrow> \<lparr>run_outcome = No_urls, run_fs = fs, run_link_trace = tr\<rparr>
           | (Inr (u # us), tr) \<Rightarrow>
               (case w_head w u of
                  None \<Rightarrow> \<lparr>run_outcome = No_size, run_fs = fs, run_link_trace = tr\<rparr>
                | Some total_size \<Rightarrow>
                    (case human_readable_bytes total_size of
                       Inl e \<Rightarrow> \<lparr>run_outcome = Uncaught e, run_fs = fs, run_link_trace = tr\<rparr>
                     | Inr _ \<Rightarrow>
                         (case prepare_chunks filename total_size (cfg_split_size cfg) of
                            Inl e \<Rightarrow>
                              \<lparr>run_outcome = Uncaught e, run_fs = fs, run_link_trace = tr\<rparr>
                          | Inr chunks \<Rightarrow>
                              (case download_and_assemble (w_network w) (cfg_threads cfg)
                                      filename (u # us) chunks fs of
                                 Inl e \<Rightarrow>
                                   \<lparr>run_outcome = Uncaught e, run_fs = fs, run_link_trace = tr\<rparr>
                               | Inr rep \<Rightarrow>
                                   \<lparr>run_outcome = Ran rep, run_fs = s_fs (d_session rep),
                                    run_link_trace = tr\<rparr>))))))"

subsection \<open>Notions used to state the properties\<close>

text \<open>The exact ceiling of a quotient of integers, to compare the float computation with.\<close>

definition ceil_div :: "int \<Rightarrow> int \<Rightarrow> int" where
  "ceil_div a b = - ((- a) div b)"

text \<open>
  Reading a decimal numeral back, which tells the part paths of different chunks apart.
\<close>

definition digit_val :: "char \<Rightarrow> nat" where
  "digit_val c = of_char c - 48"

definition decode_nat :: "string \<Rightarrow> nat" where
  "decode_nat s = foldl (\<lambda>acc c. acc * 10 + digit_val c) 0 s"

text \<open>What \<^verbatim>\<open>os.path.join("tmp", ...)\<close> puts in front of a part-file name.\<close>

definition tmp_prefix :: "string \<Rightarrow> string" where
  "tmp_prefix fname = (case fname of c # _ \<Rightarrow> if c = CHR ''/'' then [] else ''tmp/'' | [] \<Rightarrow> ''tmp/'')"

text \<open>The bytes of a chunk's part file (nothing when the file is missing).\<close>

definition part_bytes :: "filesystem \<Rightarrow> chunk \<Rightarrow> bytes" where
  "part_bytes fs c = (case fs (c_filename c) of Some d \<Rightarrow> d | None \<Rightarrow> [])"

text \<open>
  The file system after assembly has consumed the parts of the chunks \<open>pre\<close>: the
  destination holds what it held plus their bytes in order, and their part files are gone.
\<close>

definition consumed :: "string \<Rightarrow> bytes \<Rightarrow> chunk list \<Rightarrow> filesystem \<Rightarrow> filesystem" where
  "consumed out acc pre fs =
     (\<lambda>p. if p = out then Some (acc @ concat (map (part_bytes fs) pre))
          else if p \<in> c_filename ` set pre then None else fs p)"

text \<open>The ranged requests and the rate-limit delays in a log of events.\<close>

fun is_request :: "dl_event \<Rightarrow> bool" where
  "is_request (Request i url a b) = True"
| "is_request e = False"

definition requests :: "dl_event list \<Rightarrow> nat" where
  "requests evs = length (filter is_request evs)"

fun rate_waits :: "dl_event list \<Rightarrow> int list" where
  "rate_waits [] = []"
| "rate_waits (RateLimitWait w # evs) = w # rate_waits evs"
| "rate_waits (e # evs) = rate_waits evs"

text \<open>Whether the answer to an attempt is in the rate-limit class.\<close>

definition rate_limited_at :: "network \<Rightarrow> string \<Rightarrow> chunk \<Rightarrow> nat \<Rightarrow> bool" where
  "rate_limited_at net url c attempt =
     (case net url (c_start c) (c_end c) attempt of
        HTTPError code \<Rightarrow> rate_limited code
      | _ \<Rightarrow> False)"

text \<open>
  A part file that resume accepts (it exists with exactly the planned size), and one that
  it discards (it exists with another size).
\<close>

definition part_matches :: "filesystem \<Rightarrow> chunk \<Rightarrow> bool" where
  "part_matches fs c =
     (case fs (c_filename c) of Some d \<Rightarrow> int (length d) = c_size c | None \<Rightarrow> False)"

definition stale_part :: "filesystem \<Rightarrow> chunk \<Rightarrow> bool" where
  "stale_part fs c =
     (case fs (c_filename c) of Some d \<Rightarrow> int (length d) \<noteq> c_size c | None \<Rightarrow> False)"

definition pick_url :: "string list \<Rightarrow> chunk \<Rightarrow> string" where
  "pick_url urls c = urls ! (c_id c mod length urls)"

text \<open>What the resume check of one chunk adds to the log, given the disk it looks at.\<close>

definition resume_events :: "string list \<Rightarrow> filesystem \<Rightarrow> chunk \<Rightarrow> dl_event list" where
  "resume_events urls fs c =
     (if part_matches fs c then []
      else (if stale_part fs c then [Removed (c_filename c)] else [])
           @ [Submitted (c_id c) (pick_url urls c)])"

text \<open>The chunk that an event of the download log is about, if it names one by id.\<close>

fun event_chunk :: "dl_event \<Rightarrow> nat option" where
  "event_chunk (Submitted i url) = Some i"
| "event_chunk (Request i url a b) = Some i"
| "event_chunk e = None"

text \<open>The key exchanges in a trace, and the exchange that was answered "File not found".\<close>

fun is_exchange :: "k2s_event \<Rightarrow> bool" where
  "is_exchange (Exchange pd fid ch a res) = True"
| "is_exchange e = False"

definition exchanges :: "k2s_event list \<Rightarrow> k2s_event list" where
  "exchanges tr = filter is_exchange tr"

fun not_found_event :: "k2s_event \<Rightarrow> bool" where
  "not_found_event (Exchange pd fid ch a (Some resp)) =
     (r_status resp = Some ''error'' \<and> r_message resp = Some ''File not found'')"
| "not_found_event e = False"

subsection \<open>Example inputs\<close>

text \<open>
  The plan for a file of 4 bytes named \<^verbatim>\<open>out.bin\<close> in chunks of 2 bytes, and three states
  of the disk: the second part missing, the first part one byte short, both parts right.
  The destination holds an earlier file in each.
\<close>

definition demo_chunks :: "chunk list" where
  "demo_chunks =
     [\<lparr>c_id = 0, c_start = 0, c_end = 1, c_size = 2, c_filename = ''tmp/out.bin.part000''\<rparr>,
      \<lparr>c_id = 1, c_start = 2, c_end = 3, c_size = 2, c_filename = ''tmp/out.bin.part001''\<rparr>]"

definition demo_fs_missing :: filesystem where
  "demo_fs_missing = [''out.bin'' \<mapsto> ''old'', ''tmp/out.bin.part000'' \<mapsto> ''ab'']"

definition demo_fs_short :: filesystem where
  "demo_fs_short = [''out.bin'' \<mapsto> ''old'', ''tmp/out.bin.part000'' \<mapsto> ''a'',
                    ''tmp/out.bin.part001'' \<mapsto> ''cd'']"

definition demo_fs_full :: filesystem where
  "demo_fs_full = [''out.bin'' \<mapsto> ''old'', ''tmp/out.bin.part000'' \<mapsto> ''ab'',
                   ''tmp/out.bin.part001'' \<mapsto> ''cd'']"

text \<open>The disk after a first assembly of these parts, with the parts fetched again.\<close>

definition demo_fs_again :: filesystem where
  "demo_fs_again = [''out.bin'' \<mapsto> ''abcd'', ''tmp/out.bin.part000'' \<mapsto> ''ab'',
                    ''tmp/out.bin.part001'' \<mapsto> ''cd'']"

text \<open>A network on which every ranged request fails.\<close>

definition demo_net :: network where
  "demo_net url a b attempt = RequestFailed"

text \<open>
  Example collaborators: captchas and solver answers that differ from call to call, a
  \<^verbatim>\<open>getUrl\<close> that rejects the first captcha and would hand out a key on any later exchange,
  and one that answers "File not found".
\<close>

definition demo_captcha :: "nat \<Rightarrow> captcha_data option" where
  "demo_captcha n =
     (if n = 0 then Some \<lparr>cd_captcha_url = Some ''c1'', cd_challenge = Some ''ch1''\<rparr>
      else Some \<lparr>cd_captcha_url = Some ''c2'', cd_challenge = Some ''ch2''\<rparr>)"

definition demo_solver :: "nat \<Rightarrow> string option" where
  "demo_solver n = (if n = 0 then Some ''a1'' else Some ''a2'')"

definition invalid_captcha_response :: geturl_response where
  "invalid_captcha_response =
     \<lparr>r_status = Some ''error'', r_message = Some ''Invalid captcha code'', r_time_wait = None,
      r_url = None, r_free_download_key = None\<rparr>"

definition not_found_response :: geturl_response where
  "not_found_response =
     \<lparr>r_status = Some ''error'', r_message = Some ''File not found'', r_time_wait = None,
      r_url = None, r_free_download_key = None\<rparr>"

definition key_response :: geturl_response where
  "key_response =
     \<lparr>r_status = None, r_message = None, r_time_wait = Some 30, r_url = None,
      r_free_download_key = Some ''K''\<rparr>"

definition remote_invalid_first :: remote where
  "remote_invalid_first =
     \<lparr>captcha_api = demo_captcha, solver = demo_solver,
      exchange_api = (\<lambda>i. if i = 0 then Some invalid_captcha_response else Some key_response),
      mint_api = (\<lambda>j. Some (Some ''https://dl/1''))\<rparr>"

definition remote_not_found :: remote where
  "remote_not_found =
     \<lparr>captcha_api = demo_captcha, solver = demo_solver,
      exchange_api = (\<lambda>i. Some not_found_response),
      mint_api = (\<lambda>j. Some (Some ''https://dl/1''))\<rparr>"

definition demo_config :: config where
  "demo_config =
     \<lparr>cfg_file_id = ''F'', cfg_filename = Some ''out.bin'', cfg_split_size = 2, cfg_threads = 1,
      cfg_use_proxies = False, cfg_refresh_proxies = False, cfg_proxy_file = []\<rparr>"

definition world_not_found :: world where
  "world_not_found =
     \<lparr>w_info = None, w_fetched = [], w_remote = remote_not_found, w_head = (\<lambda>u. Some 4),
      w_network = demo_net\<rparr>"

section \<open>Properties\<close>

subsection \<open>The float quotient of two sizes below \<open>2^53\<close>\<close>

lemma bit_length_bounds:
  "0 < n \<Longrightarrow> 2 ^ (bit_length n - 1) \<le> n \<and> n < 2 ^ bit_length n"
proof (induction n rule: bit_length.induct)
  case (1 n)
  show ?case
  proof (cases "n div 2 \<le> 0")
    case True
    with "1.prems" have "n = 1" by linarith
    then show ?thesis by (simp add: bit_length.simps [of 1] bit_length.simps [of 0])
  next
    case False
    with "1.IH" "1.prems" have ih: "2 ^ (bit_length (n div 2) - 1) \<le> n div 2"
      "n div 2 < 2 ^ bit_length (n div 2)" by simp_all
    have pos: "0 < bit_length (n div 2)" using False by (simp add: bit_length.simps [of "n div 2"])
    have bl: "bit_length n = Suc (bit_length (n div 2))"
      using "1.prems" by (simp add: bit_length.simps [of n])
    have "2 * 2 ^ (bit_length (n div 2) - 1) \<le> n" using ih(1) by linarith
    moreover have "2 * 2 ^ (bit_length (n div 2) - 1) = (2::int) ^ bit_length (n div 2)"
      using pos by (cases "bit_length (n div 2)") simp_all
    moreover have "n < 2 * 2 ^ bit_length (n div 2)" using ih(2) by linarith
    ultimately show ?thesis by (simp add: bl)
  qed
qed

lemma bit_length_pos: "0 < n \<Longrightarrow> 0 < bit_length n"
  by (simp add: bit_length.simps [of n])

lemma bit_length_le:
  assumes "0 < n" "n < 2 ^ k"
  shows "bit_length n \<le> k"
proof (rule ccontr)
  assume "\<not> bit_length n \<le> k"
  then have "k \<le> bit_length n - 1" by simp
  then have "(2::int) ^ k \<le> 2 ^ (bit_length n - 1)" by (intro power_increasing) simp_all
  with bit_length_bounds [OF assms(1)] assms(2) show False by linarith
qed

lemma floor_log2_le: "0 < n \<Longrightarrow> 0 < d \<Longrightarrow> floor_log2 n d \<le> int (bit_length n) - 1"
  using bit_length_pos [of d] by (simp add: floor_log2_def Let_def)

lemma floor_log2_lower:
  assumes "0 < n" "0 < d"
  shows "(2::rat) powi floor_log2 n d \<le> of_int n / of_int d"
proof -
  let ?g = "int (bit_length n) - int (bit_length d)"
  show ?thesis
  proof (cases "(2::rat) powi ?g \<le> of_int n / of_int d")
    case True
    then show ?thesis by (simp add: floor_log2_def Let_def)
  next
    case False
    have bn: "(2::int) ^ (bit_length n - 1) \<le> n" using bit_length_bounds [OF assms(1)] by simp
    have bd: "d < 2 ^ bit_length d" using bit_length_bounds [OF assms(2)] by simp
    have pn: "0 < bit_length n" using assms(1) by (rule bit_length_pos)
    have n': "(2::rat) ^ (bit_length n - 1) \<le> of_int n"
      using bn by (metis of_int_le_iff of_int_numeral of_int_power)
    have d': "(of_int d :: rat) \<le> 2 ^ bit_length d"
      using bd by (metis less_imp_le of_int_le_iff of_int_numeral of_int_power)
    have dpos: "(0::rat) < of_int d" using assms(2) by simp
    have "(2::rat) powi (?g - 1) = 2 powi (int (bit_length n - 1)) * 2 powi (- int (bit_length d))"
      using pn by (subst power_int_add [symmetric]) (simp_all add: of_nat_diff algebra_simps)
    also have "\<dots> = 2 ^ (bit_length n - 1) / 2 ^ bit_length d"
      by (simp add: power_int_minus field_simps)
    also have "\<dots> \<le> of_int n / 2 ^ bit_length d"
      using n' by (intro divide_right_mono) simp_all
    also have "\<dots> \<le> of_int n / of_int d"
      using d' dpos assms(1) by (intro divide_left_mono) simp_all
    finally show ?thesis using False by (simp add: floor_log2_def Let_def)
  qed
qed

lemma round_half_even_le:
  assumes "y \<le> of_int N"
  shows "round_half_even y \<le> N"
proof -
  have f: "\<lfloor>y\<rfloor> \<le> N" using assms by (simp add: floor_le_iff) 
  show ?thesis
  proof (cases "\<lfloor>y\<rfloor> = N")
    case True
    then have "y - of_int \<lfloor>y\<rfloor> \<le> 0" using assms by simp
    then have "y - of_int \<lfloor>y\<rfloor> < 1 / 2" by linarith
    then show ?thesis using True by (simp add: round_half_even_def Let_def)
  next
    case False
    with f have "\<lfloor>y\<rfloor> + 1 \<le> N" by simp
    then show ?thesis by (auto simp: round_half_even_def Let_def)
  qed
qed

lemma round_half_even_ge:
  assumes "of_int N + 1 / 2 < y"
  shows "N + 1 \<le> round_half_even y"
proof -
  have "of_int N \<le> y" using assms by linarith
  then have f: "N \<le> \<lfloor>y\<rfloor>" by (simp add: le_floor_iff)
  show ?thesis
  proof (cases "\<lfloor>y\<rfloor> = N")
    case True
    then have "1 / 2 < y - of_int \<lfloor>y\<rfloor>" using assms by simp
    then show ?thesis using True by (simp add: round_half_even_def Let_def)
  next
    case False
    with f have "N + 1 \<le> \<lfloor>y\<rfloor>" by simp
    then show ?thesis by (auto simp: round_half_even_def Let_def)
  qed
qed

lemma round_half_even_nonneg: "0 \<le> y \<Longrightarrow> 0 \<le> round_half_even y"
  by (auto simp: round_half_even_def Let_def)

lemma pow2_add: "(2::rat) powi (a + b) = 2 powi a * 2 powi b"
  by (rule power_int_add) simp

lemma float_quotient_ceiling:
  assumes n: "0 < n" "n < 2 ^ 53" and d: "0 < d" "d < 2 ^ 53"
  shows "\<exists>v. float_quotient n d = Some v \<and> \<lceil>v\<rceil> = \<lceil>(of_int n / of_int d :: rat)\<rceil>"
proof -
  let ?x = "of_int n / of_int d :: rat"
  let ?t = "floor_log2 n d"
  let ?e = "max (?t - 52) (- 1074)"
  define s where "s = nat (- ?e)"
  define P :: int where "P = 2 ^ s"
  define k where "k = \<lceil>?x\<rceil>"
  define m where "m = round_half_even (?x * of_int P)"
  have dpos: "(0::rat) < of_int d" using d(1) by simp
  have xpos: "0 < ?x" using n(1) d(1) by simp
  have "bit_length n \<le> 53" using n by (rule bit_length_le)
  then have t52: "?t \<le> 52" using floor_log2_le [OF n(1) d(1)] by linarith
  then have e0: "?e \<le> 0" by simp
  then have se: "int s = - ?e" by (simp add: s_def)
  have Ppos: "0 < P" by (simp add: P_def)
  have pe: "(2::rat) powi (- ?e) = of_int P"
    using se by (metis P_def of_int_numeral of_int_power power_int_of_nat)
  have pe': "(2::rat) powi ?e = 1 / of_int P"
    using pe by (metis power_int_minus_divide minus_minus divide_divide_eq_right mult_1 div_by_1 power_int_minus inverse_eq_divide)
  have fq: "float_quotient n d = (if 2 powi 1024 \<le> of_int m / (of_int P :: rat) then None
              else Some (of_int m / of_int P))"
    by (simp add: float_quotient_def Let_def pe pe' m_def)
  \<comment> \<open>the rounded mantissa is at most \<open>k * P\<close>\<close>
  have "?x \<le> of_int k" by (simp add: k_def)
  then have "?x * of_int P \<le> of_int k * of_int P"
    using Ppos by (intro mult_right_mono) simp_all
  then have "?x * of_int P \<le> of_int (k * P)" by simp
  then have mle: "m \<le> k * P" unfolding m_def by (rule round_half_even_le)
  \<comment> \<open>and more than \<open>(k - 1) * P\<close>\<close>
  have dP: "(of_int d :: rat) < 2 * of_int P"
  proof (cases "?t - 52 \<ge> - 1074")
    case True
    then have s: "int s = 52 - ?t" using se by simp
    have "(2::rat) powi ?t \<le> ?x" using n(1) d(1) by (rule floor_log2_lower)
    then have "of_int d * (2::rat) powi ?t \<le> of_int n"
      using dpos by (simp add: field_simps)
    also have "\<dots> < 2 ^ 53" using n(2) by (metis of_int_less_iff of_int_numeral of_int_power)
    finally have "of_int d * (2::rat) powi ?t * 2 powi (- ?t) < 2 ^ 53 * 2 powi (- ?t)"
      by (intro mult_strict_right_mono) simp_all
    moreover have "(2::rat) powi ?t * 2 powi (- ?t) = 1"
      by (simp add: power_int_minus)
    moreover have "(2::rat) ^ 53 * 2 powi (- ?t) = 2 * 2 powi (52 - ?t)"
    proof -
      have "(2::rat) ^ 53 * 2 powi (- ?t) = 2 powi 53 * 2 powi (- ?t)" by simp
      also have "\<dots> = 2 powi (53 + (- ?t))" by (rule pow2_add [symmetric])
      also have "53 + (- ?t) = 1 + (52 - ?t)" by simp
      also have "(2::rat) powi (1 + (52 - ?t)) = 2 powi 1 * 2 powi (52 - ?t)" by (rule pow2_add)
      finally show ?thesis by simp
    qed
    moreover have "(2::rat) powi (52 - ?t) = of_int P"
      using s by (metis P_def of_int_numeral of_int_power power_int_of_nat)
    ultimately show ?thesis by (simp add: mult.assoc)
  next
    case False
    then have "s = 1074" using se by simp
    then have "(2::int) ^ 53 \<le> P" unfolding P_def by (simp add: power_increasing)
    with d(2) have "d < P" by (rule less_le_trans)
    with Ppos have "d < 2 * P" by linarith
    then show ?thesis by (metis of_int_less_iff of_int_mult of_int_numeral)
  qed
  have "of_int (k - 1) < ?x" unfolding k_def using ceiling_correct [of ?x] by simp
  then have "of_int (k - 1) * of_int d < (of_int n :: rat)"
    using dpos by (simp add: field_simps)
  then have "(k - 1) * d < n" by (metis of_int_less_iff of_int_mult)
  then have "(k - 1) * d + 1 \<le> n" by simp
  then have "of_int ((k - 1) * d + 1) \<le> (of_int n :: rat)" by (simp only: of_int_le_iff)
  then have "of_int ((k - 1) * d + 1) / of_int d \<le> ?x"
    using dpos by (intro divide_right_mono) simp_all
  moreover have "of_int ((k - 1) * d + 1) / (of_int d :: rat) = of_int (k - 1) + 1 / of_int d"
    using dpos by (simp add: add_divide_distrib)
  ultimately have xk: "of_int (k - 1) + 1 / of_int d \<le> ?x" by simp
  have "1 / 2 < of_int P / (of_int d :: rat)" using dP dpos by (simp add: field_simps)
  then have "of_int ((k - 1) * P) + 1 / 2 < of_int (k - 1) * of_int P + (1 / of_int d) * (of_int P :: rat)"
    by simp
  also have "\<dots> = (of_int (k - 1) + 1 / of_int d) * (of_int P :: rat)" by (simp add: algebra_simps)
  also have "\<dots> \<le> ?x * of_int P" using xk Ppos by (intro mult_right_mono) simp_all
  finally have mge: "(k - 1) * P + 1 \<le> m" unfolding m_def by (rule round_half_even_ge)
  \<comment> \<open>so the float lies in \<open>(k - 1, k]\<close>\<close>
  have PposR: "(0::rat) < of_int P" using Ppos by simp
  have "of_int m \<le> (of_int (k * P) :: rat)" using mle by (simp only: of_int_le_iff)
  then have up: "of_int m / of_int P \<le> (of_int k :: rat)" using PposR by (simp add: field_simps)
  have "(k - 1) * P < m" using mge by simp
  then have "(of_int ((k - 1) * P) :: rat) < of_int m" by (simp only: of_int_less_iff)
  then have lo: "(of_int k :: rat) - 1 < of_int m / of_int P" using PposR by (simp add: field_simps)
  have ceil: "\<lceil>of_int m / (of_int P :: rat)\<rceil> = k" using lo up by (rule ceiling_unique)
  have kb: "k \<le> n"
  proof -
    have "?x \<le> of_int n" using n(1) d(1) by (simp add: field_simps mult_le_cancel_left1)
    then show ?thesis unfolding k_def by (simp add: ceiling_le_iff)
  qed
  have "(of_int k :: rat) < 2 powi 1024"
  proof -
    have "(2::int) ^ 53 \<le> 2 ^ 1024" by (rule power_increasing) simp_all
    with kb n(2) have "k < 2 ^ 1024" by (meson le_less_trans less_le_trans)
    then have "(of_int k :: rat) < 2 ^ 1024" by (metis of_int_less_iff of_int_numeral of_int_power)
    then show ?thesis by simp
  qed
  with up have "\<not> 2 powi 1024 \<le> of_int m / (of_int P :: rat)" by linarith
  then show ?thesis using fq ceil by (simp add: k_def)
qed

lemma float_quotient_nonneg:
  assumes "0 < n" "0 < d" "float_quotient n d = Some v"
  shows "0 \<le> v"
proof -
  let ?e = "max (floor_log2 n d - 52) (- 1074)"
  have "(0::rat) \<le> of_int n / of_int d * 2 powi (- ?e)" using assms(1,2) by simp
  then have "0 \<le> round_half_even (of_int n / of_int d * 2 powi (- ?e))"
    by (rule round_half_even_nonneg)
  then have "(0::rat) \<le> of_int (round_half_even (of_int n / of_int d * 2 powi (- ?e))) * 2 powi ?e"
    by simp
  then show ?thesis using assms(3) by (simp add: float_quotient_def Let_def split: if_splits)
qed

lemma ceiling_quotient: "\<lceil>(of_int a / of_int b :: rat)\<rceil> = ceil_div a b"
proof -
  have "\<lceil>(of_int a / of_int b :: rat)\<rceil> = - \<lfloor>(of_int (- a) / of_int b :: rat)\<rfloor>"
    by (simp add: ceiling_def)
  also have "\<dots> = - ((- a) div b)" by (simp only: floor_divide_of_int_eq)
  finally show ?thesis by (simp add: ceil_div_def)
qed

lemma num_splits_exact:
  assumes "0 < t" "t < 2 ^ 53" "0 < s" "s < 2 ^ 53"
  shows "num_splits t s = Inr (ceil_div t s)"
proof -
  from float_quotient_ceiling [OF assms] obtain v where
    "float_quotient t s = Some v" "\<lceil>v\<rceil> = \<lceil>(of_int t / of_int s :: rat)\<rceil>" by blast
  then show ?thesis using assms(1,3) by (simp add: num_splits_def true_divide_def ceiling_quotient)
qed

lemma human_readable_bytes_ok:
  assumes "\<bar>n\<bar> < 2 ^ 53"
  shows "human_readable_bytes n = Inr ()"
proof (cases "n = 0")
  case True
  then show ?thesis by (simp add: human_readable_bytes_def int_to_float_def)
next
  case False
  then have "0 < \<bar>n\<bar>" by simp
  from float_quotient_ceiling [OF this assms, of 1] obtain v where "float_quotient \<bar>n\<bar> 1 = Some v"
    by auto
  then show ?thesis using False by (simp add: human_readable_bytes_def int_to_float_def)
qed

lemma prepare_chunks_exact:
  assumes "0 < t" "t < 2 ^ 53" "0 < s" "s < 2 ^ 53"
  shows "prepare_chunks f t s = Inr (map (mk_chunk f t s) [0..<nat (ceil_div t s)])"
  using num_splits_exact [OF assms] human_readable_bytes_ok [of s] assms(3,4)
  by (simp add: prepare_chunks_def)

lemma prepare_chunks_shape:
  assumes "prepare_chunks f t s = Inr cs"
  shows "\<exists>n. cs = map (mk_chunk f t s) [0..<n]"
  using assms by (auto simp: prepare_chunks_def split: sum.splits)

subsection \<open>Quotients beyond the float range\<close>

lemma floor_log2_upper:
  assumes "0 < n" "0 < d"
  shows "of_int n / of_int d < (2::rat) powi (floor_log2 n d + 1)"
proof -
  let ?g = "int (bit_length n) - int (bit_length d)"
  have bn: "n < 2 ^ bit_length n" using bit_length_bounds [OF assms(1)] by simp
  have bd: "(2::int) ^ (bit_length d - 1) \<le> d" using bit_length_bounds [OF assms(2)] by simp
  have pd: "0 < bit_length d" using assms(2) by (rule bit_length_pos)
  have n': "(of_int n :: rat) < 2 ^ bit_length n"
    using bn by (metis of_int_less_iff of_int_numeral of_int_power)
  have d': "(2::rat) ^ (bit_length d - 1) \<le> of_int d"
    using bd by (metis of_int_le_iff of_int_numeral of_int_power)
  have dpos: "(0::rat) < of_int d" using assms(2) by simp
  have "of_int n / of_int d < (2::rat) ^ bit_length n / of_int d"
    using n' dpos by (intro divide_strict_right_mono) simp_all
  also have "\<dots> \<le> 2 ^ bit_length n / 2 ^ (bit_length d - 1)"
    using d' by (intro frac_le) simp_all
  also have "\<dots> = 2 powi (int (bit_length n)) * 2 powi (- int (bit_length d - 1))"
    by (simp add: power_int_minus field_simps)
  also have "\<dots> = 2 powi (int (bit_length n) + (- int (bit_length d - 1)))"
    by (rule pow2_add [symmetric])
  also have "int (bit_length n) + (- int (bit_length d - 1)) = ?g + 1"
    using pd by (simp add: of_nat_diff)
  finally have up: "of_int n / of_int d < (2::rat) powi (?g + 1)" .
  show ?thesis
  proof (cases "(2::rat) powi ?g \<le> of_int n / of_int d")
    case True
    then show ?thesis using up by (simp add: floor_log2_def Let_def)
  next
    case False
    then show ?thesis by (simp add: floor_log2_def Let_def)
  qed
qed

lemma round_half_even_floor: "of_int N \<le> y \<Longrightarrow> N \<le> round_half_even y"
proof -
  assume "of_int N \<le> y"
  then have "N \<le> \<lfloor>y\<rfloor>" by (simp add: le_floor_iff)
  then show ?thesis by (auto simp: round_half_even_def Let_def)
qed

lemma float_quotient_overflow:
  assumes "0 < n" "0 < d" "(2::rat) powi 1024 \<le> of_int n / of_int d"
  shows "float_quotient n d = None"
proof -
  let ?x = "of_int n / of_int d :: rat"
  let ?t = "floor_log2 n d"
  have "(2::rat) powi 1024 < 2 powi (?t + 1)"
    using assms(3) floor_log2_upper [OF assms(1,2)] by (rule le_less_trans)
  have t: "1024 \<le> ?t"
  proof (rule ccontr)
    assume "\<not> 1024 \<le> ?t"
    then have "?t + 1 \<le> 1024" by simp
    then have "(2::rat) powi (?t + 1) \<le> 2 powi 1024" by (intro power_int_increasing) simp_all
    with \<open>(2::rat) powi 1024 < 2 powi (?t + 1)\<close> show False by simp
  qed
  then have e: "max (?t - 52) (- 1074) = ?t - 52" by simp
  define c :: int where "c = 2 ^ 52"
  define E :: rat where "E = 2 powi (?t - 52)"
  define y :: rat where "y = ?x * 2 powi (- (?t - 52))"
  have Epos: "0 \<le> E" by (simp add: E_def)
  have c_rat: "(of_int c :: rat) = 2 powi 52" by (simp add: c_def)
  have "(2::rat) powi 52 = 2 powi (?t + (- (?t - 52)))" by simp
  also have "\<dots> = 2 powi ?t * 2 powi (- (?t - 52))" by (rule pow2_add)
  also have "\<dots> \<le> y"
    unfolding y_def using floor_log2_lower [OF assms(1,2)] by (intro mult_right_mono) simp_all
  finally have "of_int c \<le> y" by (simp only: c_rat)
  then have "c \<le> round_half_even y" by (rule round_half_even_floor)
  then have "(of_int c :: rat) \<le> of_int (round_half_even y)" by (simp only: of_int_le_iff)
  then have m: "of_int c * E \<le> of_int (round_half_even y) * E"
    using Epos by (rule mult_right_mono)
  have "(2::rat) powi 1024 \<le> 2 powi ?t"
    using t by (intro power_int_increasing) simp_all
  also have "(2::rat) powi ?t = 2 powi (52 + (?t - 52))" by simp
  also have "\<dots> = 2 powi 52 * E" unfolding E_def by (rule pow2_add)
  also have "\<dots> = of_int c * E" by (simp only: c_rat)
  also note m
  finally have "(2::rat) powi 1024 \<le> of_int (round_half_even y) * E" .
  then show ?thesis
    unfolding float_quotient_def Let_def e y_def E_def by (simp only: if_True)
qed

lemma human_readable_bytes_overflow:
  assumes "2 ^ 1024 \<le> \<bar>n\<bar>"
  shows "human_readable_bytes n = Inl OverflowError"
proof -
  have "(0::int) < 2 ^ 1024" by simp
  then have pos: "0 < \<bar>n\<bar>" using assms by (rule less_le_trans)
  have "(of_int (2 ^ 1024) :: rat) \<le> of_int \<bar>n\<bar>" using assms by (simp only: of_int_le_iff)
  then have "(2::rat) powi 1024 \<le> of_int \<bar>n\<bar> / of_int 1" by simp
  from float_quotient_overflow [OF pos _ this] have "float_quotient \<bar>n\<bar> 1 = None" by simp
  then show ?thesis using pos by (auto simp: human_readable_bytes_def int_to_float_def)
qed

lemma true_divide_overflow:
  assumes "b \<noteq> 0" "2 ^ 1024 * \<bar>b\<bar> \<le> \<bar>a\<bar>"
  shows "true_divide a b = Inl OverflowError"
proof -
  have bpos: "0 < \<bar>b\<bar>" using assms(1) by simp
  then have "0 < 2 ^ 1024 * \<bar>b\<bar>" by simp
  with assms(2) have apos: "0 < \<bar>a\<bar>" by linarith
  have "(of_int (2 ^ 1024 * \<bar>b\<bar>) :: rat) \<le> of_int \<bar>a\<bar>" using assms(2) by (simp only: of_int_le_iff)
  then have "(2::rat) powi 1024 \<le> of_int \<bar>a\<bar> / of_int \<bar>b\<bar>"
    using bpos by (simp add: field_simps)
  from float_quotient_overflow [OF apos bpos this] show ?thesis
    using assms(1) apos by (auto simp: true_divide_def)
qed


lemma prepare_chunks_overflow:
  "split_size \<noteq> 0 \<Longrightarrow> 2 ^ 1024 * \<bar>split_size\<bar> \<le> \<bar>total_size\<bar>
     \<Longrightarrow> prepare_chunks fname total_size split_size = Inl OverflowError"
  "2 ^ 1024 \<le> \<bar>split_size\<bar> \<Longrightarrow> prepare_chunks fname total_size split_size = Inl OverflowError"
proof -
  show "prepare_chunks fname total_size split_size = Inl OverflowError"
    if "split_size \<noteq> 0" "2 ^ 1024 * \<bar>split_size\<bar> \<le> \<bar>total_size\<bar>"
    using true_divide_overflow [OF that] by (simp add: prepare_chunks_def num_splits_def)
  show "prepare_chunks fname total_size split_size = Inl OverflowError"
    if big: "2 ^ 1024 \<le> \<bar>split_size\<bar>"
  proof -
    have "(0::int) < 2 ^ 1024" by simp
    with big have nz: "split_size \<noteq> 0" by auto
    have h: "human_readable_bytes split_size = Inl OverflowError"
      using big by (rule human_readable_bytes_overflow)
    show ?thesis
    proof (cases "num_splits total_size split_size")
      case (Inl e)
      then have "e = OverflowError" using nz
        by (auto simp: num_splits_def true_divide_def split: if_splits option.splits)
      with Inl show ?thesis by (simp add: prepare_chunks_def)
    next
      case (Inr k)
      with h show ?thesis by (simp add: prepare_chunks_def)
    qed
  qed
qed

subsection \<open>The plan partitions the file\<close>

lemma ceil_div_bounds:
  assumes "0 < b"
  shows "(ceil_div a b - 1) * b < a" "a \<le> ceil_div a b * b"
proof -
  let ?q = "(- a) div b"
  have m: "(- a) = ?q * b + (- a) mod b" by simp
  have r0: "0 \<le> (- a) mod b" and r1: "(- a) mod b < b" using assms by simp_all
  have e: "a = (- ?q) * b - (- a) mod b" using m by linarith
  then show "a \<le> ceil_div a b * b" using r0 unfolding ceil_div_def by linarith
  have "(- ?q - 1) * b = (- ?q) * b - b" by (simp add: algebra_simps)
  then show "(ceil_div a b - 1) * b < a" using r1 e unfolding ceil_div_def
    by linarith
qed

lemma ceil_div_pos:
  assumes "0 < a" "0 < b"
  shows "0 < ceil_div a b"
proof (rule ccontr)
  assume "\<not> 0 < ceil_div a b"
  then have "ceil_div a b * b \<le> 0 * b"
    using assms(2) by (intro mult_right_mono) simp_all
  with ceil_div_bounds(2) [OF assms(2), of a] assms(1) show False by simp
qed

lemma mk_chunk_start [simp]: "c_start (mk_chunk f t s i) = int i * s"
  and mk_chunk_id [simp]: "c_id (mk_chunk f t s i) = i"
  and mk_chunk_filename [simp]: "c_filename (mk_chunk f t s i) = part_path f i"
  and mk_chunk_size: "c_size (mk_chunk f t s i) = c_end (mk_chunk f t s i) - c_start (mk_chunk f t s i) + 1"
  by (simp_all add: mk_chunk_def Let_def)

lemma mk_chunk_end:
  assumes "0 < s" "i < nat (ceil_div t s)"
  shows "c_end (mk_chunk f t s i) = (if Suc i = nat (ceil_div t s) then t - 1 else (int i + 1) * s - 1)"
proof (cases "Suc i = nat (ceil_div t s)")
  case True
  then have "int i + 1 = ceil_div t s" using assms(2) by linarith
  then have "t \<le> (int i + 1) * s" using ceil_div_bounds(2) [OF assms(1), of t] by simp
  then show ?thesis using True by (simp add: mk_chunk_def Let_def)
next
  case False
  then have "int i + 1 \<le> ceil_div t s - 1" using assms(2) by linarith
  then have "(int i + 1) * s \<le> (ceil_div t s - 1) * s"
    using assms(1) by (intro mult_right_mono) simp_all
  then have "(int i + 1) * s < t" using ceil_div_bounds(1) [OF assms(1), of t] by linarith
  then show ?thesis using False by (simp add: mk_chunk_def Let_def)
qed

lemma mk_chunk_start_le_end:
  assumes "0 < s" "i < nat (ceil_div t s)"
  shows "c_start (mk_chunk f t s i) \<le> c_end (mk_chunk f t s i)"
proof -
  have "int i \<le> ceil_div t s - 1" using assms(2) by linarith
  then have "int i * s \<le> (ceil_div t s - 1) * s"
    using assms(1) by (intro mult_right_mono) simp_all
  then have a: "int i * s < t" using ceil_div_bounds(1) [OF assms(1), of t] by linarith
  have b: "(int i + 1) * s = int i * s + s" by (simp add: algebra_simps)
  show ?thesis using a b assms(1) by (simp add: mk_chunk_end [OF assms])
qed

lemma sum_sizes_prefix:
  assumes "0 < s" "k \<le> nat (ceil_div t s)"
  shows "sum_list (map (\<lambda>i. c_size (mk_chunk f t s i)) [0..<k])
           = (if k = nat (ceil_div t s) \<and> 0 < k then t else int k * s)"
  using assms(2)
proof (induction k)
  case 0
  then show ?case by simp
next
  case (Suc k)
  then have lt: "k < nat (ceil_div t s)" by simp
  have ih: "sum_list (map (\<lambda>i. c_size (mk_chunk f t s i)) [0..<k]) = int k * s"
    using Suc lt by simp
  have "c_size (mk_chunk f t s k) = (if Suc k = nat (ceil_div t s) then t - 1 else (int k + 1) * s - 1) - int k * s + 1"
    using mk_chunk_end [OF assms(1) lt, of f] by (simp add: mk_chunk_size)
  then show ?case using ih by (simp add: algebra_simps)
qed


lemma planner_nth:
  assumes "cs = map (mk_chunk f t s) [0..<nat (ceil_div t s)]" "i < length cs"
  shows "cs ! i = mk_chunk f t s i" "length cs = nat (ceil_div t s)"
  using assms by simp_all

lemma planner_contiguous:
  assumes "0 < s" "cs = map (mk_chunk f t s) [0..<nat (ceil_div t s)]" "Suc i < length cs"
  shows "c_end (cs ! i) + 1 = c_start (cs ! Suc i)"
proof -
  have i: "i < length cs" using assms(3) by simp
  have n: "length cs = nat (ceil_div t s)" using planner_nth(2) [OF assms(2) i] .
  have "c_end (mk_chunk f t s i) = (int i + 1) * s - 1"
    using mk_chunk_end [of s i t f] assms(1,3) n by simp
  then show ?thesis
    using planner_nth(1) [OF assms(2) i] planner_nth(1) [OF assms(2,3)] by simp
qed

lemma planner_disjoint:
  assumes "0 < s" "cs = map (mk_chunk f t s) [0..<nat (ceil_div t s)]" "i < j" "j < length cs"
  shows "c_end (cs ! i) < c_start (cs ! j)"
proof -
  have i: "i < length cs" and si: "Suc i < length cs" using assms(3,4) by simp_all
  have n: "length cs = nat (ceil_div t s)" using planner_nth(2) [OF assms(2) i] .
  have e: "c_end (cs ! i) = (int i + 1) * s - 1"
    using mk_chunk_end [of s i t f] assms(1) si n planner_nth(1) [OF assms(2) i] by simp
  have "int i + 1 \<le> int j" using assms(3) by simp
  then have "(int i + 1) * s \<le> int j * s"
    using assms(1) by (intro mult_right_mono) simp_all
  then show ?thesis using e planner_nth(1) [OF assms(2,4)] by simp
qed

text \<open>
  Claim C1 says that the plan partitions the file for every positive total size and chunk
  size. The number of chunks is the ceiling of a float quotient: for a total size of
  \<open>2^53 + 1\<close> and a chunk size of \<open>2^53\<close> the quotient rounds to 1.0, and the plan is one
  chunk that ends at \<open>2^53 - 1\<close>, one byte short of the file.
\<close>

theorem planner_float_counterexample:
  "prepare_chunks ''f.bin'' 9007199254740993 9007199254740992
     = Inr [\<lparr>c_id = 0, c_start = 0, c_end = 9007199254740991, c_size = 9007199254740992,
             c_filename = ''tmp/f.bin.part000''\<rparr>]"
  by code_simp

text \<open>
  Claim C1 as amended. For a total size and a chunk size that are positive and below
  \<open>2^53\<close> the plan exists, is not empty and partitions the byte offsets
  \<open>0 .. total_size - 1\<close>: the ids count up from 0, the first chunk starts at 0, the last
  one ends at \<open>total_size - 1\<close>, each chunk ends right before the next one starts, chunks
  do not overlap, no chunk is empty, the sizes add up to the total size, and every offset
  lies in exactly one chunk.
\<close>

theorem planner_partitions:
  assumes "0 < total_size" "total_size < 2 ^ 53" "0 < split_size" "split_size < 2 ^ 53"
  shows "\<exists>cs. prepare_chunks fname total_size split_size = Inr cs
     \<and> cs \<noteq> []
     \<and> map c_id cs = [0..<length cs]
     \<and> c_start (hd cs) = 0
     \<and> c_end (last cs) = total_size - 1
     \<and> (\<forall>i. Suc i < length cs \<longrightarrow> c_end (cs ! i) + 1 = c_start (cs ! Suc i))
     \<and> (\<forall>i j. i < j \<and> j < length cs \<longrightarrow> c_end (cs ! i) < c_start (cs ! j))
     \<and> (\<forall>c \<in> set cs. c_start c \<le> c_end c \<and> c_size c = c_end c - c_start c + 1)
     \<and> sum_list (map c_size cs) = total_size
     \<and> (\<forall>b. 0 \<le> b \<and> b < total_size \<longrightarrow>
           (\<exists>!i. i < length cs \<and> c_start (cs ! i) \<le> b \<and> b \<le> c_end (cs ! i)))"
proof -
  let ?n = "nat (ceil_div total_size split_size)"
  let ?mk = "mk_chunk fname total_size split_size"
  define cs where "cs = map ?mk [0..<?n]"
  have pc: "prepare_chunks fname total_size split_size = Inr cs"
    using prepare_chunks_exact [OF assms] by (simp add: cs_def)
  have npos: "0 < ?n" using ceil_div_pos [OF assms(1,3)] by simp
  have len: "length cs = ?n" by (simp add: cs_def)
  have nth: "cs ! i = ?mk i" if "i < ?n" for i using that by (simp add: cs_def)
  have ne: "cs \<noteq> []" using npos len by auto
  have ids: "map c_id cs = [0..<length cs]"
    by (rule nth_equalityI) (simp_all add: cs_def)
  have first: "c_start (hd cs) = 0"
    using ne nth [OF npos] by (simp add: hd_conv_nth)
  have lastc: "c_end (last cs) = total_size - 1"
  proof -
    have "last cs = ?mk (?n - 1)" using ne len npos nth [of "?n - 1"] by (simp add: last_conv_nth)
    then show ?thesis using mk_chunk_end [OF assms(3), of "?n - 1" total_size fname] npos by simp
  qed
  have contig: "\<forall>i. Suc i < length cs \<longrightarrow> c_end (cs ! i) + 1 = c_start (cs ! Suc i)"
    using planner_contiguous [OF assms(3) cs_def] by blast
  have disj: "\<forall>i j. i < j \<and> j < length cs \<longrightarrow> c_end (cs ! i) < c_start (cs ! j)"
    using planner_disjoint [OF assms(3) cs_def] by blast
  have wf: "\<forall>c \<in> set cs. c_start c \<le> c_end c \<and> c_size c = c_end c - c_start c + 1"
    using mk_chunk_start_le_end [OF assms(3)] by (auto simp: cs_def mk_chunk_size)
  have total: "sum_list (map c_size cs) = total_size"
    using sum_sizes_prefix [OF assms(3), of ?n total_size fname] npos
    by (simp add: cs_def comp_def)
  have cover: "\<exists>!i. i < length cs \<and> c_start (cs ! i) \<le> b \<and> b \<le> c_end (cs ! i)"
    if b: "0 \<le> b" "b < total_size" for b
  proof -
    let ?i = "nat (b div split_size)"
    have q0: "0 \<le> b div split_size" using b(1) assms(3) by (simp add: pos_imp_zdiv_nonneg_iff)
    have lo: "(b div split_size) * split_size \<le> b"
    proof -
      have "b = (b div split_size) * split_size + b mod split_size" by simp
      moreover have "0 \<le> b mod split_size" using assms(3) by simp
      ultimately show ?thesis by linarith
    qed
    have hi: "b < (b div split_size + 1) * split_size"
    proof -
      have "b = (b div split_size) * split_size + b mod split_size" by simp
      moreover have "b mod split_size < split_size" using assms(3) by simp
      moreover have "(b div split_size + 1) * split_size = (b div split_size) * split_size + split_size"
        by (simp add: algebra_simps)
      ultimately show ?thesis by linarith
    qed
    have "b div split_size < ceil_div total_size split_size"
    proof (rule ccontr)
      assume "\<not> b div split_size < ceil_div total_size split_size"
      then have "ceil_div total_size split_size * split_size \<le> (b div split_size) * split_size"
        using assms(3) by (intro mult_right_mono) simp_all
      with lo ceil_div_bounds(2) [OF assms(3), of total_size] b(2) show False by linarith
    qed
    then have il: "?i < ?n" using q0 by linarith
    have s: "c_start (cs ! ?i) \<le> b" using nth [OF il] lo q0 by simp
    have e: "b \<le> c_end (cs ! ?i)"
      using nth [OF il] mk_chunk_end [OF assms(3) il, of fname] hi b(2) q0 by (simp split: if_splits)
    show ?thesis
    proof (rule ex1I [of _ ?i])
      show "?i < length cs \<and> c_start (cs ! ?i) \<le> b \<and> b \<le> c_end (cs ! ?i)"
        using il len s e by simp
    next
      fix j assume j: "j < length cs \<and> c_start (cs ! j) \<le> b \<and> b \<le> c_end (cs ! j)"
      show "j = ?i"
      proof (rule ccontr)
        assume "j \<noteq> ?i"
        then consider "j < ?i" | "?i < j" by linarith
        then show False
        proof cases
          case 1
          with disj il len have "c_end (cs ! j) < c_start (cs ! ?i)" by simp
          with j s show False by linarith
        next
          case 2
          with disj j have "c_end (cs ! ?i) < c_start (cs ! j)" by simp
          with j e show False by linarith
        qed
      qed
    qed
  qed
  have cover_all: "\<forall>b. 0 \<le> b \<and> b < total_size \<longrightarrow>
           (\<exists>!i. i < length cs \<and> c_start (cs ! i) \<le> b \<and> b \<le> c_end (cs ! i))"
    using cover by (intro allI impI) (elim conjE)
  show ?thesis
    by (rule exI [of _ cs]) (intro conjI pc ne ids first lastc contig disj wf total cover_all)
qed

theorem planner_partitions_witness:
  "(0::int) < 45 \<and> (45::int) < 2 ^ 53 \<and> (0::int) < 20 \<and> (20::int) < 2 ^ 53 \<and>
   (\<exists>cs. prepare_chunks ''f.bin'' 45 20 = Inr cs \<and> length cs = 3
      \<and> sum_list (map c_size cs) = 45 \<and> c_end (last cs) = 44 \<and> c_end (cs ! 0) + 1 = c_start (cs ! 1))"
proof -
  have p: "(0::int) < 45" "(45::int) < 2 ^ 53" "(0::int) < 20" "(20::int) < 2 ^ 53" by simp_all
  have l: "nat (ceil_div 45 20) = 3" by (simp add: ceil_div_def)
  from planner_partitions [OF p, of "''f.bin''"] obtain cs where
    pc: "prepare_chunks ''f.bin'' 45 20 = Inr cs" and
    last: "c_end (last cs) = 45 - 1" and
    contig: "\<forall>i. Suc i < length cs \<longrightarrow> c_end (cs ! i) + 1 = c_start (cs ! Suc i)" and
    total: "sum_list (map c_size cs) = 45"
    by (elim exE conjE)
  have len: "length cs = 3" using pc l prepare_chunks_exact [OF p, of "''f.bin''"] by auto
  have "c_end (cs ! 0) + 1 = c_start (cs ! 1)" using contig len by simp
  then show ?thesis using pc last total len by simp
qed

subsection \<open>Degenerate planning inputs\<close>

text \<open>
  Claim C3 says that a total size or a chunk size that is not positive is rejected with an
  error of its own. The planner has no such check: a total size of 0 gives the empty
  plan, and a chunk size of 0 fails in the division.
\<close>

theorem planner_degenerate_counterexample:
  "prepare_chunks ''f.bin'' 0 20 = Inr [] \<and> prepare_chunks ''f.bin'' 45 0 = Inl ZeroDivisionError"
  by code_simp

lemma num_splits_not_positive:
  assumes "s \<noteq> 0" "(t \<le> 0 \<and> 0 < s) \<or> (0 \<le> t \<and> s < 0)"
  shows "num_splits t s = Inl OverflowError \<or> (\<exists>n. num_splits t s = Inr n \<and> n \<le> 0)"
proof (cases "t = 0")
  case True
  then show ?thesis using assms(1) by (simp add: num_splits_def true_divide_def)
next
  case False
  then have sg: "(t < 0) \<noteq> (s < 0)" and pos: "0 < \<bar>t\<bar>" "0 < \<bar>s\<bar>" using assms by auto
  show ?thesis
  proof (cases "float_quotient \<bar>t\<bar> \<bar>s\<bar>")
    case None
    then show ?thesis using assms(1) False by (simp add: num_splits_def true_divide_def)
  next
    case (Some v)
    from float_quotient_nonneg [OF pos Some] have "- v \<le> 0" by simp
    then have "\<lceil>- v\<rceil> \<le> 0" by (simp add: ceiling_le_iff)
    then show ?thesis using assms(1) False sg Some
      by (simp add: num_splits_def true_divide_def)
  qed
qed

lemma prepare_chunks_not_positive:
  assumes "s \<noteq> 0" "(t \<le> 0 \<and> 0 < s) \<or> (0 \<le> t \<and> s < 0)"
  shows "prepare_chunks f t s = Inr [] \<or> prepare_chunks f t s = Inl OverflowError"
proof -
  from num_splits_not_positive [OF assms]
  consider "num_splits t s = Inl OverflowError" | n where "num_splits t s = Inr n" "n \<le> 0"
    by blast
  then show ?thesis
  proof cases
    case 1
    then show ?thesis by (simp add: prepare_chunks_def)
  next
    case 2
    show ?thesis
    proof (cases "human_readable_bytes s")
      case (Inl e)
      then have "e = OverflowError"
        by (auto simp: human_readable_bytes_def int_to_float_def split: if_splits option.splits)
      with Inl 2 show ?thesis by (simp add: prepare_chunks_def)
    next
      case (Inr u)
      with 2 show ?thesis by (simp add: prepare_chunks_def)
    qed
  qed
qed

lemma prepare_chunks_no_overflow:
  assumes "t \<noteq> 0 \<or> s \<noteq> 0" "\<bar>t\<bar> < 2 ^ 53" "\<bar>s\<bar> < 2 ^ 53" "s \<noteq> 0"
  shows "prepare_chunks f t s \<noteq> Inl OverflowError"
proof -
  have hs: "human_readable_bytes s = Inr ()" using assms(3) by (rule human_readable_bytes_ok)
  have "\<exists>n. num_splits t s = Inr n"
  proof (cases "t = 0")
    case True
    then show ?thesis using assms(4) by (simp add: num_splits_def true_divide_def)
  next
    case False
    then have "0 < \<bar>t\<bar>" "0 < \<bar>s\<bar>" using assms(4) by simp_all
    from float_quotient_ceiling [OF this(1) assms(2) this(2) assms(3)]
    obtain v where "float_quotient \<bar>t\<bar> \<bar>s\<bar> = Some v" by blast
    then show ?thesis using False assms(4) by (simp add: num_splits_def true_divide_def)
  qed
  then show ?thesis using hs by (auto simp: prepare_chunks_def)
qed

text \<open>
  Claim C3 as amended. A total size that is not positive with a positive chunk size, and
  a total size that is not negative with a negative chunk size, never give a plan with
  chunks in it and no error of the planner's own: the result is the empty plan or
  \<^verbatim>\<open>OverflowError\<close>. With both sizes below \<open>2^53\<close> in magnitude it is the empty plan;
  when the quotient or the chunk size reaches \<open>2^1024\<close> in magnitude, which no float
  holds, it is \<^verbatim>\<open>OverflowError\<close>. A chunk size of 0 raises \<^verbatim>\<open>ZeroDivisionError\<close> whatever
  the total size.
\<close>

theorem planner_degenerate:
  "(total_size \<le> 0 \<and> 0 < split_size \<or> 0 \<le> total_size \<and> split_size < 0 \<longrightarrow>
      (prepare_chunks fname total_size split_size = Inr []
        \<or> prepare_chunks fname total_size split_size = Inl OverflowError)
      \<and> (\<bar>total_size\<bar> < 2 ^ 53 \<and> \<bar>split_size\<bar> < 2 ^ 53 \<longrightarrow>
           prepare_chunks fname total_size split_size = Inr [])
      \<and> (2 ^ 1024 * \<bar>split_size\<bar> \<le> \<bar>total_size\<bar> \<or> 2 ^ 1024 \<le> \<bar>split_size\<bar> \<longrightarrow>
           prepare_chunks fname total_size split_size = Inl OverflowError))
   \<and> (split_size = 0 \<longrightarrow> prepare_chunks fname total_size split_size = Inl ZeroDivisionError)"
proof -
  have deg: "(prepare_chunks fname total_size split_size = Inr []
        \<or> prepare_chunks fname total_size split_size = Inl OverflowError)
      \<and> (\<bar>total_size\<bar> < 2 ^ 53 \<and> \<bar>split_size\<bar> < 2 ^ 53 \<longrightarrow>
           prepare_chunks fname total_size split_size = Inr [])
      \<and> (2 ^ 1024 * \<bar>split_size\<bar> \<le> \<bar>total_size\<bar> \<or> 2 ^ 1024 \<le> \<bar>split_size\<bar> \<longrightarrow>
           prepare_chunks fname total_size split_size = Inl OverflowError)"
    if a: "(total_size \<le> 0 \<and> 0 < split_size) \<or> (0 \<le> total_size \<and> split_size < 0)"
  proof -
    from a have nz: "split_size \<noteq> 0" by auto
    have d: "prepare_chunks fname total_size split_size = Inr []
        \<or> prepare_chunks fname total_size split_size = Inl OverflowError"
      using nz a by (rule prepare_chunks_not_positive)
    have b: "prepare_chunks fname total_size split_size = Inr []"
      if "\<bar>total_size\<bar> < 2 ^ 53 \<and> \<bar>split_size\<bar> < 2 ^ 53"
    proof -
      have "prepare_chunks fname total_size split_size \<noteq> Inl OverflowError"
        using nz that by (intro prepare_chunks_no_overflow) simp_all
      with d show ?thesis by simp
    qed
    have o: "prepare_chunks fname total_size split_size = Inl OverflowError"
      if "2 ^ 1024 * \<bar>split_size\<bar> \<le> \<bar>total_size\<bar> \<or> 2 ^ 1024 \<le> \<bar>split_size\<bar>"
      using that nz prepare_chunks_overflow(1) [of split_size total_size fname]
        prepare_chunks_overflow(2) [of split_size fname total_size] by blast
    show ?thesis using d b o by blast
  qed
  have z: "prepare_chunks fname total_size split_size = Inl ZeroDivisionError"
    if "split_size = 0"
    using that by (simp add: prepare_chunks_def num_splits_def true_divide_def)
  show ?thesis using deg z by blast
qed

theorem planner_degenerate_witness:
  "(0::int) \<le> 0 \<and> (0::int) < 20 \<and> \<bar>0::int\<bar> < 2 ^ 53 \<and> \<bar>20::int\<bar> < 2 ^ 53
   \<and> prepare_chunks ''f.bin'' 0 20 = Inr []
   \<and> (0::int) \<le> 45 \<and> (- 20::int) < 0 \<and> \<bar>45::int\<bar> < 2 ^ 53 \<and> \<bar>- 20::int\<bar> < 2 ^ 53
   \<and> prepare_chunks ''f.bin'' 45 (- 20) = Inr []
   \<and> - (2 ^ 1024 * 20) \<le> (0::int) \<and> 2 ^ 1024 * \<bar>20::int\<bar> \<le> \<bar>- (2 ^ 1024 * 20)\<bar>
   \<and> prepare_chunks ''f.bin'' (- (2 ^ 1024 * 20)) 20 = Inl OverflowError
   \<and> prepare_chunks ''f.bin'' 45 0 = Inl ZeroDivisionError"
proof -
  have a: "prepare_chunks ''f.bin'' 0 20 = Inr []"
    using planner_degenerate [of 0 20 "''f.bin''"] by simp
  have b: "prepare_chunks ''f.bin'' 45 (- 20) = Inr []"
    using planner_degenerate [of 45 "- 20" "''f.bin''"] by simp
  have h: "- (2 ^ 1024 * 20) \<le> (0::int)" "2 ^ 1024 * \<bar>20::int\<bar> \<le> \<bar>- (2 ^ 1024 * 20)\<bar>"
    by simp_all
  have c: "prepare_chunks ''f.bin'' (- (2 ^ 1024 * 20)) 20 = Inl OverflowError"
    using planner_degenerate [of "- (2 ^ 1024 * 20)" 20 "''f.bin''"] h by simp
  have d: "prepare_chunks ''f.bin'' 45 0 = Inl ZeroDivisionError"
    using planner_degenerate [of 45 0 "''f.bin''"] by simp
  show ?thesis using a b c d h by simp
qed

subsection \<open>Part paths are pairwise distinct and differ from the destination\<close>

lemma digit_val_digit_char: "d < 10 \<Longrightarrow> digit_val (digit_char d) = d"
  by (simp add: digit_val_def digit_char_def)

lemma decode_nat_snoc: "decode_nat (s @ [c]) = decode_nat s * 10 + digit_val c"
  by (simp add: decode_nat_def)

lemma decode_nat_str_nat: "decode_nat (str_nat n) = n"
proof (induction n rule: str_nat.induct)
  case (1 n)
  show ?case
  proof (cases "n < 10")
    case True
    then show ?thesis
      by (subst str_nat.simps) (simp add: decode_nat_def digit_val_digit_char)
  next
    case False
    with "1.IH" have "decode_nat (str_nat (n div 10)) = n div 10" by simp
    with False show ?thesis
      by (subst str_nat.simps) (simp add: decode_nat_snoc digit_val_digit_char)
  qed
qed

lemma decode_nat_zeros: "decode_nat (replicate k (CHR ''0'') @ s) = decode_nat s"
proof -
  have "foldl (\<lambda>acc c. acc * 10 + digit_val c) 0 (replicate k (CHR ''0'')) = 0"
    by (induction k) (simp_all add: digit_val_def)
  then show ?thesis by (simp add: decode_nat_def)
qed

lemma decode_nat_zfill: "decode_nat (zfill w (str_nat n)) = n"
  by (simp add: zfill_def decode_nat_zeros decode_nat_str_nat)

lemma part_path_eq: "part_path fname i = tmp_prefix fname @ fname @ ''.part'' @ zfill 3 (str_nat i)"
  by (cases fname) (simp_all add: part_path_def path_join_def tmp_prefix_def)

lemma part_path_inj: "part_path fname i = part_path fname j \<Longrightarrow> i = j"
proof -
  assume "part_path fname i = part_path fname j"
  then have "zfill 3 (str_nat i) = zfill 3 (str_nat j)" by (simp add: part_path_eq)
  then have "decode_nat (zfill 3 (str_nat i)) = decode_nat (zfill 3 (str_nat j))" by simp
  then show "i = j" by (simp add: decode_nat_zfill)
qed

lemma part_path_neq_dest: "part_path fname i \<noteq> fname"
proof
  assume "part_path fname i = fname"
  then have "length (part_path fname i) = length fname" by simp
  then show False by (simp add: part_path_eq)
qed

lemma planner_paths:
  assumes "prepare_chunks fname t s = Inr cs"
  shows "distinct (map c_filename cs)" "fname \<notin> c_filename ` set cs" "map c_id cs = [0..<length cs]"
proof -
  from prepare_chunks_shape [OF assms] obtain n where cs: "cs = map (mk_chunk fname t s) [0..<n]"
    by blast
  have "inj_on (\<lambda>i. part_path fname i) (set [0..<n])"
    by (rule inj_onI) (rule part_path_inj)
  then show "distinct (map c_filename cs)"
    by (simp add: cs distinct_map comp_def)
  show "fname \<notin> c_filename ` set cs"
  proof
    assume "fname \<in> c_filename ` set cs"
    moreover have "c_filename ` set cs = part_path fname ` {0..<n}"
      by (simp add: cs image_image)
    ultimately obtain i where "fname = part_path fname i" by blast
    then show False using part_path_neq_dest [of fname i] by simp
  qed
  show "map c_id cs = [0..<length cs]"
    by (rule nth_equalityI) (simp_all add: cs)
qed

subsection \<open>Assembly consumes the parts that are present, in plan order\<close>

lemma notin_imageD: "y \<notin> f ` A \<Longrightarrow> x \<in> A \<Longrightarrow> f x \<noteq> y"
  by auto

lemma write_open_other: "p \<noteq> out \<Longrightarrow> write_open fs out d p = fs p"
  by (simp add: write_open_def split: option.splits)

lemma write_open_dest: "fs out = Some acc \<Longrightarrow> write_open fs out d out = Some (acc @ d)"
  by (simp add: write_open_def)

lemma consumed_Nil: "fs out = Some acc \<Longrightarrow> consumed out acc [] fs = fs"
  by (rule ext) (simp add: consumed_def)

lemma consumed_Cons:
  assumes "fs (c_filename c) = Some d" "c_filename c \<noteq> out"
    and "c_filename c \<notin> c_filename ` set pre" "out \<notin> c_filename ` set pre"
  shows "consumed out (acc @ d) pre ((write_open fs out d)(c_filename c := None))
           = consumed out acc (c # pre) fs"
proof -
  let ?fs1 = "(write_open fs out d)(c_filename c := None)"
  have same: "part_bytes ?fs1 c' = part_bytes fs c'" if "c' \<in> set pre" for c'
  proof -
    from that assms(3,4) have "c_filename c' \<noteq> c_filename c" "c_filename c' \<noteq> out"
      by (simp_all add: notin_imageD)
    then show ?thesis by (simp add: part_bytes_def write_open_def split: option.splits)
  qed
  then have m: "map (part_bytes ?fs1) pre = map (part_bytes fs) pre" by simp
  have pc: "part_bytes fs c = d" using assms(1) by (simp add: part_bytes_def)
  have cm: "concat (map (part_bytes ?fs1) pre) = concat (map (part_bytes fs) pre)"
    using m by (rule arg_cong)
  have other: "?fs1 p = fs p" if "p \<noteq> out" "p \<noteq> c_filename c" for p
    using that by (simp add: write_open_def split: option.splits)
  show ?thesis
  proof (rule ext)
    fix p
    consider "p = out" | "p \<noteq> out" "p = c_filename c" | "p \<noteq> out" "p \<noteq> c_filename c"
      by blast
    then show "consumed out (acc @ d) pre ?fs1 p = consumed out acc (c # pre) fs p"
    proof cases
      case 1
      then show ?thesis by (simp add: consumed_def cm pc)
    next
      case 2
      then show ?thesis using assms(3) by (simp add: consumed_def)
    next
      case 3
      then show ?thesis by (simp add: consumed_def write_open_other)
    qed
  qed
qed

lemma assemble_loop_prefix:
  assumes "distinct (map c_filename pre)" "out \<notin> c_filename ` set pre"
    and "fs out = Some acc" "\<forall>c \<in> set pre. fs (c_filename c) \<noteq> None"
  shows "assemble_loop out (pre @ rest) fs = assemble_loop out rest (consumed out acc pre fs)"
  using assms
proof (induction pre arbitrary: fs acc)
  case Nil
  then show ?case by (simp add: consumed_Nil)
next
  case (Cons c pre)
  from Cons.prems(4) obtain d where d: "fs (c_filename c) = Some d" by auto
  let ?fs1 = "(write_open fs out d)(c_filename c := None)"
  have ne: "c_filename c \<noteq> out" and ni: "c_filename c \<notin> c_filename ` set pre"
    and no: "out \<notin> c_filename ` set pre" and di: "distinct (map c_filename pre)"
    using Cons.prems(1,2) by auto
  have o1: "?fs1 out = Some (acc @ d)"
    using ne Cons.prems(3) by (simp add: write_open_def)
  have p1: "\<forall>c' \<in> set pre. ?fs1 (c_filename c') \<noteq> None"
  proof
    fix c' assume c': "c' \<in> set pre"
    with ni no have "c_filename c' \<noteq> c_filename c" "c_filename c' \<noteq> out"
      by (simp_all add: notin_imageD)
    moreover from c' Cons.prems(4) have "fs (c_filename c') \<noteq> None" by simp
    ultimately show "?fs1 (c_filename c') \<noteq> None"
      by (simp add: write_open_def split: option.splits)
  qed
  have "assemble_loop out ((c # pre) @ rest) fs = assemble_loop out (pre @ rest) ?fs1"
    using d by simp
  also have "\<dots> = assemble_loop out rest (consumed out (acc @ d) pre ?fs1)"
    by (rule Cons.IH [OF di no o1 p1])
  also have "consumed out (acc @ d) pre ?fs1 = consumed out acc (c # pre) fs"
    using d ne ni no by (rule consumed_Cons)
  finally show ?case .
qed

lemma part_bytes_dest:
  "c_filename c \<noteq> out \<Longrightarrow> part_bytes (fs(out \<mapsto> x)) c = part_bytes fs c"
  by (simp add: part_bytes_def)

lemma assemble_file_prefix:
  assumes "distinct (map c_filename pre)" "out \<notin> c_filename ` set pre"
    and "\<forall>c \<in> set pre. fs (c_filename c) \<noteq> None"
  shows "assemble_file out (pre @ rest) fs
           = assemble_loop out rest (consumed out [] pre (fs(out \<mapsto> [])))"
proof -
  have "\<forall>c \<in> set pre. (fs(out \<mapsto> [])) (c_filename c) \<noteq> None"
    using assms(2,3) by auto
  then show ?thesis
    unfolding assemble_file_def
    using assemble_loop_prefix [OF assms(1,2), of "fs(out \<mapsto> [])" "[]" rest] by simp
qed

lemma consumed_dest:
  assumes "out \<notin> c_filename ` set pre"
  shows "consumed out [] pre (fs(out \<mapsto> [])) out = Some (concat (map (part_bytes fs) pre))"
proof -
  have "map (part_bytes (fs(out \<mapsto> []))) pre = map (part_bytes fs) pre"
    using assms by (intro map_cong refl part_bytes_dest) (simp add: notin_imageD)
  then have "concat (map (part_bytes (fs(out \<mapsto> []))) pre) = concat (map (part_bytes fs) pre)"
    by (rule arg_cong)
  then show ?thesis by (simp add: consumed_def)
qed

lemma consumed_part:
  "c \<in> set pre \<Longrightarrow> out \<notin> c_filename ` set pre \<Longrightarrow> consumed out acc pre fs (c_filename c) = None"
  by (auto simp: consumed_def)

lemma consumed_other:
  "p \<noteq> out \<Longrightarrow> p \<notin> c_filename ` set pre \<Longrightarrow> consumed out acc pre fs p = fs p"
  by (simp add: consumed_def)

lemma str_nat_digit: "n < 10 \<Longrightarrow> str_nat n = [digit_char n]"
  by (subst str_nat.simps) simp

lemma demo_chunks_planned: "prepare_chunks ''out.bin'' 4 2 = Inr demo_chunks"
  by code_simp

subsection \<open>Assembly with a part missing or of the wrong size\<close>

text \<open>
  Claim C2 says that assembly leaves the destination untouched when a part is missing or
  has the wrong size. With the second part missing, the destination that held \<^verbatim>\<open>old\<close>
  holds the first part afterwards and the first part file is gone; with the first part
  one byte short, assembly completes with a file of 3 bytes and reports nothing.
\<close>

theorem assemble_missing_counterexample:
  "prepare_chunks ''out.bin'' 4 2 = Inr demo_chunks
   \<and> demo_fs_missing ''out.bin'' = Some ''old''
   \<and> demo_fs_missing ''tmp/out.bin.part001'' = None
   \<and> snd (assemble_file ''out.bin'' demo_chunks demo_fs_missing) = Missing_chunk 1
   \<and> fst (assemble_file ''out.bin'' demo_chunks demo_fs_missing) ''out.bin'' = Some ''ab''
   \<and> fst (assemble_file ''out.bin'' demo_chunks demo_fs_missing) ''tmp/out.bin.part000'' = None
   \<and> demo_fs_short ''tmp/out.bin.part000'' = Some ''a''
   \<and> snd (assemble_file ''out.bin'' demo_chunks demo_fs_short) = Download_complete
   \<and> fst (assemble_file ''out.bin'' demo_chunks demo_fs_short) ''out.bin'' = Some ''acd''"
  by (simp add: demo_chunks_planned)
     (simp add: demo_chunks_def demo_fs_missing_def demo_fs_short_def assemble_file_def write_open_def)

text \<open>
  Claim C2 as amended. Assembly empties the destination first and then consumes the parts
  in plan order, as long as they exist, whatever their sizes. If the first \<open>k\<close> parts
  exist and part \<open>k\<close> is missing, it stops there and reports chunk \<open>k\<close> alone as missing;
  the destination then holds the bytes of the first \<open>k\<close> parts, whose files are
  deleted, and the later part files are as they were. If all parts exist
  (\<open>k = length cs\<close>) it completes.
\<close>

theorem assemble_first_missing:
  assumes "prepare_chunks filename total_size split_size = Inr cs"
    and "k \<le> length cs"
    and "\<forall>i<k. fs (c_filename (cs ! i)) \<noteq> None"
    and "k < length cs \<longrightarrow> fs (c_filename (cs ! k)) = None"
  shows "snd (assemble_file filename cs fs)
           = (if k = length cs then Download_complete else Missing_chunk k)
     \<and> fst (assemble_file filename cs fs) filename
           = Some (concat (map (part_bytes fs) (take k cs)))
     \<and> (\<forall>i<k. fst (assemble_file filename cs fs) (c_filename (cs ! i)) = None)
     \<and> (\<forall>i. k \<le> i \<and> i < length cs \<longrightarrow>
           fst (assemble_file filename cs fs) (c_filename (cs ! i)) = fs (c_filename (cs ! i)))"
proof -
  let ?pre = "take k cs" and ?rest = "drop k cs"
  let ?fs' = "consumed filename [] ?pre (fs(filename \<mapsto> []))"
  have dist: "distinct (map c_filename cs)" and nout: "filename \<notin> c_filename ` set cs"
    and ids: "map c_id cs = [0..<length cs]"
    using planner_paths [OF assms(1)] by simp_all
  have dpre: "distinct (map c_filename ?pre)"
    using dist by (simp add: take_map [symmetric])
  have opre: "filename \<notin> c_filename ` set ?pre"
    using nout set_take_subset [of k cs] by blast
  have ppre: "\<forall>c \<in> set ?pre. fs (c_filename c) \<noteq> None"
    using assms(2,3) by (auto simp: in_set_conv_nth)
  have run: "assemble_file filename cs fs = assemble_loop filename ?rest ?fs'"
    using assemble_file_prefix [OF dpre opre ppre, of ?rest] by simp
  have later: "?fs' (c_filename (cs ! i)) = fs (c_filename (cs ! i))"
    if i: "k \<le> i" "i < length cs" for i
  proof -
    have "c_filename (cs ! i) \<noteq> filename" using nout i(2) by (metis nth_mem notin_imageD)
    moreover have "c_filename (cs ! i) \<notin> c_filename ` set ?pre"
    proof
      assume "c_filename (cs ! i) \<in> c_filename ` set ?pre"
      then obtain j where j: "j < k" "j < length cs" "c_filename (cs ! j) = c_filename (cs ! i)"
        by (auto simp: in_set_conv_nth)
      then have "j = i" using nth_eq_iff_index_eq [OF dist, of j i] i(2) by simp
      with j(1) i(1) show False by simp
    qed
    ultimately show ?thesis by (simp add: consumed_other)
  qed
  have res: "assemble_loop filename ?rest ?fs'
               = (?fs', if k = length cs then Download_complete else Missing_chunk k)"
  proof (cases "k = length cs")
    case True
    then show ?thesis by simp
  next
    case False
    then have k: "k < length cs" using assms(2) by simp
    then have d: "?rest = cs ! k # drop (Suc k) cs" by (simp add: Cons_nth_drop_Suc)
    have "?fs' (c_filename (cs ! k)) = None" using later [of k] k assms(4) by simp
    moreover have "c_id (cs ! k) = k"
      using ids k by (metis nth_map nth_upt add_0)
    ultimately show ?thesis using False by (simp add: d)
  qed
  have early: "\<forall>i<k. ?fs' (c_filename (cs ! i)) = None"
  proof (intro allI impI)
    fix i assume "i < k"
    then have "cs ! i \<in> set ?pre" using assms(2) by (auto simp: in_set_conv_nth)
    then show "?fs' (c_filename (cs ! i)) = None" using opre by (rule consumed_part)
  qed
  show ?thesis
    using later early by (simp add: run res consumed_dest [OF opre])
qed

theorem assemble_first_missing_witness:
  "prepare_chunks ''out.bin'' 4 2 = Inr demo_chunks
   \<and> 1 \<le> length demo_chunks
   \<and> demo_fs_missing (c_filename (demo_chunks ! 0)) = Some ''ab''
   \<and> demo_fs_missing (c_filename (demo_chunks ! 1)) = None
   \<and> snd (assemble_file ''out.bin'' demo_chunks demo_fs_missing) = Missing_chunk 1
   \<and> fst (assemble_file ''out.bin'' demo_chunks demo_fs_missing) ''out.bin'' = Some ''ab''"
proof -
  have h1: "prepare_chunks ''out.bin'' 4 2 = Inr demo_chunks" by (rule demo_chunks_planned)
  have h2: "1 \<le> length demo_chunks" by (simp add: demo_chunks_def)
  have h3: "\<forall>i<1. demo_fs_missing (c_filename (demo_chunks ! i)) \<noteq> None"
    by (simp add: demo_chunks_def demo_fs_missing_def)
  have h4: "1 < length demo_chunks \<longrightarrow> demo_fs_missing (c_filename (demo_chunks ! 1)) = None"
    by (simp add: demo_chunks_def demo_fs_missing_def)
  have len: "length demo_chunks = 2" by (simp add: demo_chunks_def)
  have parts: "concat (map (part_bytes demo_fs_missing) (take 1 demo_chunks)) = ''ab''"
    by (simp add: demo_chunks_def demo_fs_missing_def part_bytes_def)
  from assemble_first_missing [OF h1 h2 h3 h4] len parts
  have "snd (assemble_file ''out.bin'' demo_chunks demo_fs_missing) = Missing_chunk 1
    \<and> fst (assemble_file ''out.bin'' demo_chunks demo_fs_missing) ''out.bin'' = Some ''ab''"
    by simp
  moreover have "demo_fs_missing (c_filename (demo_chunks ! 0)) = Some ''ab''"
    "demo_fs_missing (c_filename (demo_chunks ! 1)) = None"
    by (simp_all add: demo_chunks_def demo_fs_missing_def)
  ultimately show ?thesis using h1 h2 by simp
qed

subsection \<open>Assembling twice\<close>

text \<open>What assembly does to a disk on which every part of the plan is present.\<close>

lemma assemble_complete_run:
  assumes "prepare_chunks filename total_size split_size = Inr cs"
    and "\<forall>c \<in> set cs. fs (c_filename c) \<noteq> None"
  shows "snd (assemble_file filename cs fs) = Download_complete"
    and "fst (assemble_file filename cs fs) filename = Some (concat (map (part_bytes fs) cs))"
    and "\<forall>c \<in> set cs. fst (assemble_file filename cs fs) (c_filename c) = None"
proof -
  have dist: "distinct (map c_filename cs)" and nout: "filename \<notin> c_filename ` set cs"
    using planner_paths [OF assms(1)] by simp_all
  have run: "assemble_file filename cs fs
               = (consumed filename [] cs (fs(filename \<mapsto> [])), Download_complete)"
    using assemble_file_prefix [OF dist nout assms(2), of "[]"] by simp
  show "snd (assemble_file filename cs fs) = Download_complete" by (simp add: run)
  show "fst (assemble_file filename cs fs) filename = Some (concat (map (part_bytes fs) cs))"
    by (simp add: run consumed_dest [OF nout])
  show "\<forall>c \<in> set cs. fst (assemble_file filename cs fs) (c_filename c) = None"
    using nout by (simp add: run consumed_part)
qed

text \<open>
  Claim C6. Two runs of assembly, each on a disk that holds the same complete chunk set
  (every part of the plan present, with the same bytes in both), both complete and leave
  the same bytes in the destination: the parts in plan order. What else the disks hold
  does not matter, in particular the destination that an earlier run has left. So the
  run can be repeated on the disk that the first run leaves, once the parts are there
  again.
\<close>

theorem assemble_twice_same_output:
  assumes "prepare_chunks filename total_size split_size = Inr cs"
    and "\<forall>c \<in> set cs. fs (c_filename c) \<noteq> None"
    and "\<forall>c \<in> set cs. fs2 (c_filename c) = fs (c_filename c)"
  shows "snd (assemble_file filename cs fs) = Download_complete
     \<and> snd (assemble_file filename cs fs2) = Download_complete
     \<and> fst (assemble_file filename cs fs) filename = Some (concat (map (part_bytes fs) cs))
     \<and> fst (assemble_file filename cs fs2) filename = fst (assemble_file filename cs fs) filename
     \<and> snd (assemble_file filename cs
              (\<lambda>p. if p \<in> c_filename ` set cs then fs p
                   else fst (assemble_file filename cs fs) p)) = Download_complete
     \<and> fst (assemble_file filename cs
              (\<lambda>p. if p \<in> c_filename ` set cs then fs p
                   else fst (assemble_file filename cs fs) p)) filename
         = fst (assemble_file filename cs fs) filename"
proof -
  have same: "snd (assemble_file filename cs g) = Download_complete
      \<and> fst (assemble_file filename cs g) filename = Some (concat (map (part_bytes fs) cs))"
    if g: "\<forall>c \<in> set cs. g (c_filename c) = fs (c_filename c)" for g
  proof -
    have p: "\<forall>c \<in> set cs. g (c_filename c) \<noteq> None" using g assms(2) by simp
    have "map (part_bytes g) cs = map (part_bytes fs) cs"
      using g by (simp add: part_bytes_def)
    then have "concat (map (part_bytes g) cs) = concat (map (part_bytes fs) cs)"
      by (rule arg_cong)
    then show ?thesis using assemble_complete_run(1,2) [OF assms(1) p] by simp
  qed
  let ?again = "\<lambda>p. if p \<in> c_filename ` set cs then fs p
                   else fst (assemble_file filename cs fs) p"
  have "\<forall>c \<in> set cs. ?again (c_filename c) = fs (c_filename c)" by simp
  from same [OF this] same [OF assms(3)] same [of fs]
  show ?thesis by simp
qed

theorem assemble_twice_same_output_witness:
  "prepare_chunks ''out.bin'' 4 2 = Inr demo_chunks
   \<and> map (\<lambda>c. demo_fs_full (c_filename c)) demo_chunks = [Some ''ab'', Some ''cd'']
   \<and> map (\<lambda>c. demo_fs_again (c_filename c)) demo_chunks = [Some ''ab'', Some ''cd'']
   \<and> demo_fs_full ''out.bin'' = Some ''old'' \<and> demo_fs_again ''out.bin'' = Some ''abcd''
   \<and> snd (assemble_file ''out.bin'' demo_chunks demo_fs_full) = Download_complete
   \<and> snd (assemble_file ''out.bin'' demo_chunks demo_fs_again) = Download_complete
   \<and> fst (assemble_file ''out.bin'' demo_chunks demo_fs_full) ''out.bin'' = Some ''abcd''
   \<and> fst (assemble_file ''out.bin'' demo_chunks demo_fs_again) ''out.bin'' = Some ''abcd''"
proof -
  have h1: "prepare_chunks ''out.bin'' 4 2 = Inr demo_chunks" by (rule demo_chunks_planned)
  have h2: "\<forall>c \<in> set demo_chunks. demo_fs_full (c_filename c) \<noteq> None"
    by (simp add: demo_chunks_def demo_fs_full_def)
  have h3: "\<forall>c \<in> set demo_chunks. demo_fs_again (c_filename c) = demo_fs_full (c_filename c)"
    by (simp add: demo_chunks_def demo_fs_full_def demo_fs_again_def)
  have parts: "concat (map (part_bytes demo_fs_full) demo_chunks) = ''abcd''"
    by (simp add: demo_chunks_def demo_fs_full_def part_bytes_def)
  from assemble_twice_same_output [OF h1 h2 h3] parts
  have "snd (assemble_file ''out.bin'' demo_chunks demo_fs_full) = Download_complete
   \<and> snd (assemble_file ''out.bin'' demo_chunks demo_fs_again) = Download_complete
   \<and> fst (assemble_file ''out.bin'' demo_chunks demo_fs_full) ''out.bin'' = Some ''abcd''
   \<and> fst (assemble_file ''out.bin'' demo_chunks demo_fs_again) ''out.bin'' = Some ''abcd''"
    by simp
  moreover have "map (\<lambda>c. demo_fs_full (c_filename c)) demo_chunks = [Some ''ab'', Some ''cd'']"
    "map (\<lambda>c. demo_fs_again (c_filename c)) demo_chunks = [Some ''ab'', Some ''cd'']"
    "demo_fs_full ''out.bin'' = Some ''old''" "demo_fs_again ''out.bin'' = Some ''abcd''"
    by (simp_all add: demo_chunks_def demo_fs_full_def demo_fs_again_def)
  ultimately show ?thesis using h1 by simp
qed

subsection \<open>The retry loop of a chunk\<close>

lemma stream_to_file_events [simp]: "s_events (stream_to_file p d s) = s_events s"
  by (simp add: stream_to_file_def)

lemma log_event_events [simp]: "s_events (log_event e s) = s_events s @ [e]"
  by (simp add: log_event_def)

lemma retry_loop_events:
  "\<exists>new. s_events (fst (retry_loop net url c as s)) = s_events s @ new
     \<and> requests new \<le> length as
     \<and> (as \<noteq> [] \<longrightarrow> 1 \<le> requests new)
     \<and> (\<forall>e \<in> set new. is_request e \<longrightarrow> e = Request (c_id c) url (c_start c) (c_end c))
     \<and> rate_waits new
         = map (\<lambda>a. (int a + 1) * 5) (filter (rate_limited_at net url c) (take (requests new) as))"
proof (induction as arbitrary: s)
  case Nil
  show ?case by (simp add: requests_def)
next
  case (Cons a as)
  let ?req = "Request (c_id c) url (c_start c) (c_end c)"
  let ?s1 = "log_event ?req s"
  show ?case
  proof (cases "net url (c_start c) (c_end c) a")
    case (Body d)
    then have "s_events (fst (retry_loop net url c (a # as) s)) = s_events s @ [?req]"
      by simp
    moreover have "requests [?req] = 1" "rate_waits [?req] = []" by (simp_all add: requests_def)
    moreover have "\<not> rate_limited_at net url c a" using Body by (simp add: rate_limited_at_def)
    ultimately show ?thesis by (intro exI [of _ "[?req]"]) simp
  next
    case (HTTPError code)
    show ?thesis
    proof (cases "rate_limited code")
      case True
      let ?w = "RateLimitWait ((int a + 1) * 5)"
      from Cons.IH [of "log_event ?w ?s1"] obtain new where
        new: "s_events (fst (retry_loop net url c as (log_event ?w ?s1))) = s_events (log_event ?w ?s1) @ new"
          "requests new \<le> length as"
          "\<forall>e \<in> set new. is_request e \<longrightarrow> e = ?req"
          "rate_waits new = map (\<lambda>a. (int a + 1) * 5) (filter (rate_limited_at net url c) (take (requests new) as))"
        by blast
      have rl: "rate_limited_at net url c a" using HTTPError True by (simp add: rate_limited_at_def)
      have ev: "s_events (fst (retry_loop net url c (a # as) s)) = s_events s @ (?req # ?w # new)"
        using HTTPError True new(1) by simp
      have rq: "requests (?req # ?w # new) = Suc (requests new)" by (simp add: requests_def)
      have rw: "rate_waits (?req # ?w # new) = (int a + 1) * 5 # rate_waits new" by simp
      show ?thesis
        by (rule exI [of _ "?req # ?w # new"]) (use ev rq rw rl new(2,3,4) in simp)
    next
      case False
      then have "s_events (fst (retry_loop net url c (a # as) s)) = s_events s @ [?req]"
        using HTTPError by simp
      moreover have "requests [?req] = 1" "rate_waits [?req] = []" by (simp_all add: requests_def)
      moreover have "\<not> rate_limited_at net url c a"
        using HTTPError False by (simp add: rate_limited_at_def)
      ultimately show ?thesis by (intro exI [of _ "[?req]"]) simp
    qed
  next
    case RequestFailed
    have nrl: "\<not> rate_limited_at net url c a" using RequestFailed by (simp add: rate_limited_at_def)
    show ?thesis
    proof (cases "a = max_retries - 1")
      case True
      then have "s_events (fst (retry_loop net url c (a # as) s)) = s_events s @ [?req]"
        using RequestFailed by simp
      moreover have "requests [?req] = 1" "rate_waits [?req] = []" by (simp_all add: requests_def)
      ultimately show ?thesis using nrl by (intro exI [of _ "[?req]"]) simp
    next
      case False
      let ?w = "RetryWait 2"
      from Cons.IH [of "log_event ?w ?s1"] obtain new where
        new: "s_events (fst (retry_loop net url c as (log_event ?w ?s1))) = s_events (log_event ?w ?s1) @ new"
          "requests new \<le> length as"
          "\<forall>e \<in> set new. is_request e \<longrightarrow> e = ?req"
          "rate_waits new = map (\<lambda>a. (int a + 1) * 5) (filter (rate_limited_at net url c) (take (requests new) as))"
        by blast
      have ev: "s_events (fst (retry_loop net url c (a # as) s)) = s_events s @ (?req # ?w # new)"
        using RequestFailed False new(1) by simp
      have rq: "requests (?req # ?w # new) = Suc (requests new)" by (simp add: requests_def)
      have rw: "rate_waits (?req # ?w # new) = rate_waits new" by simp
      show ?thesis
        by (rule exI [of _ "?req # ?w # new"]) (use ev rq rw nrl new(2,3,4) in simp)
    qed
  next
    case (BrokenStream d)
    have nrl: "\<not> rate_limited_at net url c a" using BrokenStream by (simp add: rate_limited_at_def)
    show ?thesis
    proof (cases "a = max_retries - 1")
      case True
      then have "s_events (fst (retry_loop net url c (a # as) s)) = s_events s @ [?req]"
        using BrokenStream by simp
      moreover have "requests [?req] = 1" "rate_waits [?req] = []" by (simp_all add: requests_def)
      ultimately show ?thesis using nrl by (intro exI [of _ "[?req]"]) simp
    next
      case False
      let ?w = "RetryWait 2"
      let ?s2 = "log_event ?w (stream_to_file (c_filename c) d ?s1)"
      from Cons.IH [of ?s2] obtain new where
        new: "s_events (fst (retry_loop net url c as ?s2)) = s_events ?s2 @ new"
          "requests new \<le> length as"
          "\<forall>e \<in> set new. is_request e \<longrightarrow> e = ?req"
          "rate_waits new = map (\<lambda>a. (int a + 1) * 5) (filter (rate_limited_at net url c) (take (requests new) as))"
        by blast
      have ev: "s_events (fst (retry_loop net url c (a # as) s)) = s_events s @ (?req # ?w # new)"
        using BrokenStream False new(1) by simp
      have rq: "requests (?req # ?w # new) = Suc (requests new)" by (simp add: requests_def)
      have rw: "rate_waits (?req # ?w # new) = rate_waits new" by simp
      show ?thesis
        by (rule exI [of _ "?req # ?w # new"]) (use ev rq rw nrl new(2,3,4) in simp)
    qed
  qed
qed

text \<open>
  Claim C9. Fetching a chunk makes at least one and at most \<open>max_retries\<close> (five) ranged
  requests, whatever the answers are, and then returns or raises. The delay slept after a
  rate-limit answer to attempt \<open>a\<close> (counted from 0) is \<open>(a + 1) * 5\<close> seconds, so the
  rate-limit delays of one chunk, in the order in which they are slept, are strictly
  increasing.
\<close>

theorem download_chunk_attempts:
  "\<exists>new. s_events (fst (download_chunk net url c s)) = s_events s @ new
     \<and> 1 \<le> requests new \<and> requests new \<le> max_retries \<and> max_retries = 5
     \<and> rate_waits new
         = map (\<lambda>a. (int a + 1) * 5) (filter (rate_limited_at net url c) [0..<requests new])
     \<and> sorted_wrt (<) (rate_waits new)"
proof -
  from retry_loop_events [of net url c "[0..<max_retries]" s] obtain new where
    ev: "s_events (fst (retry_loop net url c [0..<max_retries] s)) = s_events s @ new"
    and le: "requests new \<le> length [0..<max_retries]"
    and ge: "[0..<max_retries] \<noteq> [] \<longrightarrow> 1 \<le> requests new"
    and rw: "rate_waits new = map (\<lambda>a. (int a + 1) * 5)
               (filter (rate_limited_at net url c) (take (requests new) [0..<max_retries]))"
    by blast
  have le': "requests new \<le> max_retries" using le by simp
  have ge': "1 \<le> requests new" using ge by (simp add: max_retries_def)
  have tk: "take (requests new) [0..<max_retries] = [0..<requests new]"
    using le' by (simp add: take_upt)
  have rw': "rate_waits new
      = map (\<lambda>a. (int a + 1) * 5) (filter (rate_limited_at net url c) [0..<requests new])"
    using rw tk by simp
  have "sorted_wrt (<) (filter (rate_limited_at net url c) [0..<requests new])"
    by (rule sorted_wrt_filter) simp
  then have "sorted_wrt (\<lambda>a b. (int a + 1) * 5 < (int b + 1) * 5)
               (filter (rate_limited_at net url c) [0..<requests new])"
    by (rule sorted_wrt_mono_rel [rotated]) simp
  then have so: "sorted_wrt (<) (rate_waits new)"
    by (simp add: rw' sorted_wrt_map)
  show ?thesis
    unfolding download_chunk_def
    by (rule exI [of _ new]) (use ev le' ge' rw' so in \<open>simp add: max_retries_def\<close>)
qed

subsection \<open>The resume check\<close>

lemma resume_step_result:
  assumes "urls \<noteq> []"
  shows "\<exists>s' ts'. resume_step urls c (s, ts) = Inr (s', ts')
    \<and> ts' = ts @ (if part_matches (s_fs s) c then [] else [(pick_url urls c, c)])
    \<and> s_fs s' = (if stale_part (s_fs s) c then (s_fs s)(c_filename c := None) else s_fs s)
    \<and> s_progress s' = s_progress s + (if part_matches (s_fs s) c then c_size c else 0)
    \<and> s_events s' = s_events s @ resume_events urls (s_fs s) c"
proof (cases "s_fs s (c_filename c)")
  case None
  with assms show ?thesis
    by (simp add: resume_step_def submit_def part_matches_def stale_part_def resume_events_def
        pick_url_def log_event_def Let_def)
next
  case (Some d)
  with assms show ?thesis
    by (cases "int (length d) = c_size c")
       (simp_all add: resume_step_def submit_def part_matches_def stale_part_def resume_events_def
        pick_url_def log_event_def Let_def)
qed

lemma part_check_cong:
  assumes "fs' (c_filename c) = fs (c_filename c)"
  shows "part_matches fs' c = part_matches fs c" "stale_part fs' c = stale_part fs c"
    "resume_events urls fs' c = resume_events urls fs c"
  using assms by (simp_all add: part_matches_def stale_part_def resume_events_def)

lemma resume_loop_result:
  assumes "urls \<noteq> []" "distinct (map c_filename cs)"
  shows "\<exists>s' ts'. resume_loop urls cs (s, ts) = Inr (s', ts')
     \<and> ts' = ts @ map (\<lambda>c. (pick_url urls c, c)) (filter (\<lambda>c. \<not> part_matches (s_fs s) c) cs)
     \<and> (\<forall>p. s_fs s' p = (if p \<in> c_filename ` {c \<in> set cs. stale_part (s_fs s) c} then None
                            else s_fs s p))
     \<and> s_progress s' = s_progress s + sum_list (map c_size (filter (part_matches (s_fs s)) cs))
     \<and> s_events s' = s_events s @ concat (map (resume_events urls (s_fs s)) cs)"
  using assms(2)
proof (induction cs arbitrary: s ts)
  case Nil
  show ?case by simp
next
  case (Cons c cs)
  from resume_step_result [OF assms(1), of c s ts] obtain s1 ts1 where
    step: "resume_step urls c (s, ts) = Inr (s1, ts1)"
    and ts1: "ts1 = ts @ (if part_matches (s_fs s) c then [] else [(pick_url urls c, c)])"
    and fs1: "s_fs s1 = (if stale_part (s_fs s) c then (s_fs s)(c_filename c := None) else s_fs s)"
    and pr1: "s_progress s1 = s_progress s + (if part_matches (s_fs s) c then c_size c else 0)"
    and ev1: "s_events s1 = s_events s @ resume_events urls (s_fs s) c"
    by blast
  have dist: "distinct (map c_filename cs)" and fresh: "c_filename c \<notin> c_filename ` set cs"
    using Cons.prems by simp_all
  have same: "s_fs s1 (c_filename c') = s_fs s (c_filename c')" if "c' \<in> set cs" for c'
    using fresh that by (simp add: fs1 notin_imageD)
  have pm: "part_matches (s_fs s1) c' = part_matches (s_fs s) c'"
    and sp: "stale_part (s_fs s1) c' = stale_part (s_fs s) c'"
    and re: "resume_events urls (s_fs s1) c' = resume_events urls (s_fs s) c'"
    if "c' \<in> set cs" for c'
    by (rule part_check_cong [where fs' = "s_fs s1" and fs = "s_fs s" and c = c',
          OF same [OF that]])+
  have m: "filter (\<lambda>c. \<not> part_matches (s_fs s1) c) cs = filter (\<lambda>c. \<not> part_matches (s_fs s) c) cs"
    "filter (part_matches (s_fs s1)) cs = filter (part_matches (s_fs s)) cs"
    "map (resume_events urls (s_fs s1)) cs = map (resume_events urls (s_fs s)) cs"
    "{c \<in> set cs. stale_part (s_fs s1) c} = {c \<in> set cs. stale_part (s_fs s) c}"
    using pm sp re by (auto intro: filter_cong map_cong)
  from Cons.IH [OF dist, of s1 ts1] obtain s' ts' where
    loop: "resume_loop urls cs (s1, ts1) = Inr (s', ts')"
    and ts': "ts' = ts1 @ map (\<lambda>c. (pick_url urls c, c)) (filter (\<lambda>c. \<not> part_matches (s_fs s1) c) cs)"
    and fs': "\<forall>p. s_fs s' p = (if p \<in> c_filename ` {c \<in> set cs. stale_part (s_fs s1) c} then None
                            else s_fs s1 p)"
    and pr': "s_progress s' = s_progress s1 + sum_list (map c_size (filter (part_matches (s_fs s1)) cs))"
    and ev': "s_events s' = s_events s1 @ concat (map (resume_events urls (s_fs s1)) cs)"
    by blast
  have a: "resume_loop urls (c # cs) (s, ts) = Inr (s', ts')" using step loop by simp
  have b: "ts' = ts @ map (\<lambda>c. (pick_url urls c, c)) (filter (\<lambda>c. \<not> part_matches (s_fs s) c) (c # cs))"
    using ts' ts1 m(1) by simp
  have c: "s_fs s' p = (if p \<in> c_filename ` {c' \<in> set (c # cs). stale_part (s_fs s) c'} then None
                            else s_fs s p)" for p
  proof -
    have "{c' \<in> set (c # cs). stale_part (s_fs s) c'}
            = (if stale_part (s_fs s) c then {c} else {}) \<union> {c' \<in> set cs. stale_part (s_fs s) c'}"
      by auto
    then show ?thesis using fs' [rule_format, of p] m(4) by (simp add: fs1)
  qed
  have d: "s_progress s' = s_progress s + sum_list (map c_size (filter (part_matches (s_fs s)) (c # cs)))"
    using pr' pr1 m(2) by simp
  have e: "s_events s' = s_events s @ concat (map (resume_events urls (s_fs s)) (c # cs))"
    using ev' ev1 m(3) by simp
  show ?case using a b c d e by blast
qed

subsection \<open>Requests are made for submitted chunks only\<close>

lemma event_chunks_log:
  "event_chunk ` set (s_events (log_event e t)) = insert (event_chunk e) (event_chunk ` set (s_events t))"
  by simp

lemma subset_step:
  "R \<subseteq> insert a (insert b E') \<Longrightarrow> E' \<subseteq> insert a (insert b E) \<Longrightarrow> R \<subseteq> insert a (insert b E)"
  by blast

lemma retry_loop_chunks:
  "event_chunk ` set (s_events (fst (retry_loop net url c as s)))
     \<subseteq> insert None (insert (Some (c_id c)) (event_chunk ` set (s_events s)))"
proof (induction as arbitrary: s)
  case Nil
  show ?case by (simp add: subset_insertI2)
next
  case (Cons a as)
  let ?s1 = "log_event (Request (c_id c) url (c_start c) (c_end c)) s"
  let ?B = "insert None (insert (Some (c_id c)) (event_chunk ` set (s_events s)))"
  have s1: "event_chunk ` set (s_events ?s1) \<subseteq> ?B"
    by (simp only: event_chunks_log event_chunk.simps) (rule subset_insertI)
  have st: "event_chunk ` set (s_events (stream_to_file p d ?s1)) \<subseteq> ?B" for p d
    using s1 by (simp only: stream_to_file_events)
  have wait: "event_chunk ` set (s_events (fst (retry_loop net url c as (log_event w t)))) \<subseteq> ?B"
    if "event_chunk w = None" "event_chunk ` set (s_events t) \<subseteq> ?B" for w t
  proof -
    have "event_chunk ` set (s_events (fst (retry_loop net url c as (log_event w t))))
            \<subseteq> insert None (insert (Some (c_id c)) (event_chunk ` set (s_events (log_event w t))))"
      by (rule Cons.IH)
    moreover have "event_chunk ` set (s_events (log_event w t)) \<subseteq> ?B"
      using that by (simp only: event_chunks_log) (rule insert_subsetI, rule insertI1)
    ultimately show ?thesis by (rule subset_step)
  qed
  show ?case
  proof (cases "net url (c_start c) (c_end c) a")
    case (Body d)
    then show ?thesis using st by simp
  next
    case (HTTPError code)
    show ?thesis
    proof (cases "rate_limited code")
      case True
      then show ?thesis
        using HTTPError wait [of "RateLimitWait ((int a + 1) * 5)" ?s1, OF _ s1] by simp
    next
      case False
      then show ?thesis using HTTPError s1 by simp
    qed
  next
    case RequestFailed
    show ?thesis
    proof (cases "a = max_retries - 1")
      case True
      then show ?thesis using RequestFailed s1 by simp
    next
      case False
      then show ?thesis
        using RequestFailed wait [of "RetryWait 2" ?s1, OF _ s1] by simp
    qed
  next
    case (BrokenStream d)
    show ?thesis
    proof (cases "a = max_retries - 1")
      case True
      then show ?thesis using BrokenStream st by simp
    next
      case False
      then show ?thesis
        using BrokenStream wait [of "RetryWait 2" "stream_to_file (c_filename c) d ?s1", OF _ st]
        by simp
    qed
  qed
qed

lemma subset_tasks:
  "B \<subseteq> insert None (insert x A) \<Longrightarrow> C \<subseteq> B \<union> {None} \<union> T \<Longrightarrow> C \<subseteq> A \<union> {None} \<union> insert x T"
  by blast

lemma run_tasks_chunks:
  "event_chunk ` set (s_events (fst (run_tasks net ts s)))
     \<subseteq> event_chunk ` set (s_events s) \<union> {None} \<union> Some ` c_id ` snd ` set ts"
proof (induction ts arbitrary: s)
  case Nil
  show ?case by (simp add: subset_insertI)
next
  case (Cons t ts)
  obtain url c where t: "t = (url, c)" by (cases t)
  obtain s1 out where d: "download_chunk net url c s = (s1, out)" by (cases "download_chunk net url c s")
  obtain s2 failed where r: "run_tasks net ts s1 = (s2, failed)" by (cases "run_tasks net ts s1")
  have a: "event_chunk ` set (s_events s1)
             \<subseteq> insert None (insert (Some (c_id c)) (event_chunk ` set (s_events s)))"
    using retry_loop_chunks [of net url c "[0..<max_retries]" s] d by (simp add: download_chunk_def)
  have b: "event_chunk ` set (s_events s2)
     \<subseteq> event_chunk ` set (s_events s1) \<union> {None} \<union> Some ` c_id ` snd ` set ts"
    using Cons.IH [of s1] r by simp
  have "event_chunk ` set (s_events s2)
     \<subseteq> event_chunk ` set (s_events s) \<union> {None} \<union> insert (Some (c_id c)) (Some ` c_id ` snd ` set ts)"
    using a b by (rule subset_tasks)
  then show ?case using t d r by simp
qed

lemma assemble_file_complete:
  assumes "prepare_chunks filename total_size split_size = Inr cs"
    and "\<forall>c \<in> set cs. fs (c_filename c) \<noteq> None"
  shows "assemble_file filename cs fs
           = (consumed filename [] cs (fs(filename \<mapsto> [])), Download_complete)"
    and "consumed filename [] cs (fs(filename \<mapsto> [])) filename
           = Some (concat (map (part_bytes fs) cs))"
proof -
  have dist: "distinct (map c_filename cs)" and nout: "filename \<notin> c_filename ` set cs"
    using planner_paths [OF assms(1)] by simp_all
  show "assemble_file filename cs fs
           = (consumed filename [] cs (fs(filename \<mapsto> [])), Download_complete)"
    using assemble_file_prefix [OF dist nout assms(2), of "[]"] by simp
  show "consumed filename [] cs (fs(filename \<mapsto> [])) filename
           = Some (concat (map (part_bytes fs) cs))"
    by (rule consumed_dest [OF nout])
qed

lemma planner_ids_inj:
  assumes "prepare_chunks filename total_size split_size = Inr cs"
    and "c \<in> set cs" "c' \<in> set cs" "c_id c = c_id c'"
  shows "c = c'"
proof -
  have "distinct (map c_id cs)" using planner_paths(3) [OF assms(1)] by simp
  then have "inj_on c_id (set cs)" by (simp add: distinct_map)
  then show ?thesis using assms(4,2,3) by (rule inj_onD)
qed

lemma resume_events_chunk:
  "e \<in> set (resume_events urls fs c) \<Longrightarrow> event_chunk e = Some i \<Longrightarrow> i = c_id c \<and> \<not> part_matches fs c"
  by (auto simp: resume_events_def split: if_splits)

lemma resume_events_concat_chunk:
  assumes "e \<in> set (concat (map (resume_events urls fs) cs))" "event_chunk e = Some i"
  shows "\<exists>c' \<in> set cs. i = c_id c' \<and> \<not> part_matches fs c'"
proof -
  from assms(1) obtain c' where "c' \<in> set cs" "e \<in> set (resume_events urls fs c')" by auto
  with resume_events_chunk [of e urls fs c' i] assms(2) show ?thesis by blast
qed

text \<open>
  Claim C8. With a worker count that is positive and at least one URL, steps 6 and 7 go
  through for every planned chunk list. A chunk whose part file exists with exactly the
  planned size is never submitted and no request is made for it. If every part file
  matches, nothing at all is submitted or requested, the progress counter stands at the
  sum of the chunk sizes, and assembly runs and completes with the parts in plan order.
\<close>

theorem resume_skips_matching_parts:
  assumes "prepare_chunks filename total_size split_size = Inr cs"
    and "urls \<noteq> []" and "0 < threads"
  shows "\<exists>rep. download_and_assemble net threads filename urls cs fs = Inr rep
     \<and> (\<forall>c \<in> set cs. part_matches fs c \<longrightarrow>
           Some (c_id c) \<notin> event_chunk ` set (s_events (d_session rep)))
     \<and> ((\<forall>c \<in> set cs. part_matches fs c) \<longrightarrow>
           s_events (d_session rep) = [] \<and> d_failed rep = []
         \<and> s_progress (d_session rep) = sum_list (map c_size cs)
         \<and> d_assembled rep = Download_complete
         \<and> s_fs (d_session rep) filename = Some (concat (map (part_bytes fs) cs)))"
proof -
  let ?s0 = "\<lparr>s_fs = fs, s_progress = 0, s_events = []\<rparr>"
  have dist: "distinct (map c_filename cs)" using planner_paths(1) [OF assms(1)] .
  from resume_loop_result [OF assms(2) dist, of ?s0 "[]"] obtain s1 ts1 where
    loop: "resume_loop urls cs (?s0, []) = Inr (s1, ts1)"
    and ts1: "ts1 = map (\<lambda>c. (pick_url urls c, c)) (filter (\<lambda>c. \<not> part_matches fs c) cs)"
    and fs1: "\<forall>p. s_fs s1 p = (if p \<in> c_filename ` {c \<in> set cs. stale_part fs c} then None else fs p)"
    and pr1: "s_progress s1 = sum_list (map c_size (filter (part_matches fs) cs))"
    and ev1: "s_events s1 = concat (map (resume_events urls fs) cs)"
    by auto
  obtain s2 failed where run: "run_tasks net ts1 s1 = (s2, failed)" by (cases "run_tasks net ts1 s1")
  obtain fs3 res where asm: "assemble_file filename cs (s_fs s2) = (fs3, res)"
    by (cases "assemble_file filename cs (s_fs s2)")
  let ?rep = "\<lparr>d_session = s2\<lparr>s_fs := fs3\<rparr>, d_failed = failed, d_assembled = res\<rparr>"
  have rep: "download_and_assemble net threads filename urls cs fs = Inr ?rep"
    using assms(3) loop run asm by (simp add: download_and_assemble_def)
  have skip: "Some (c_id c) \<notin> event_chunk ` set (s_events s2)"
    if c: "c \<in> set cs" "part_matches fs c" for c
  proof
    assume "Some (c_id c) \<in> event_chunk ` set (s_events s2)"
    with run_tasks_chunks [of net ts1 s1] run
    have "Some (c_id c) \<in> event_chunk ` set (s_events s1) \<union> {None} \<union> Some ` c_id ` snd ` set ts1"
      by auto
    then consider "Some (c_id c) \<in> event_chunk ` set (s_events s1)"
      | "c_id c \<in> c_id ` snd ` set ts1" by auto
    then obtain c' where c': "c' \<in> set cs" "c_id c = c_id c'" "\<not> part_matches fs c'"
    proof cases
      case 1
      then obtain e where "e \<in> set (s_events s1)" "event_chunk e = Some (c_id c)" by force
      with resume_events_concat_chunk [of e urls fs cs "c_id c"] ev1 that show ?thesis by auto
    next
      case 2
      with ts1 that show ?thesis by auto
    qed
    from planner_ids_inj [OF assms(1) c(1) c'(1,2)] c(2) c'(3) show False by simp
  qed
  have allm: "s_events s2 = [] \<and> failed = []
         \<and> s_progress s2 = sum_list (map c_size cs)
         \<and> res = Download_complete
         \<and> fs3 filename = Some (concat (map (part_bytes fs) cs))"
    if all: "\<forall>c \<in> set cs. part_matches fs c"
  proof -
    have f1: "filter (\<lambda>c. \<not> part_matches fs c) cs = []" using all by simp
    have f2: "filter (part_matches fs) cs = cs" using all by simp
    have t: "ts1 = []" using ts1 f1 by simp
    have s2: "s2 = s1" "failed = []" using run t by simp_all
    have "map (resume_events urls fs) cs = map (\<lambda>c. []) cs"
      using all by (intro map_cong refl) (simp add: resume_events_def)
    then have e: "s_events s1 = []" using ev1 by simp
    have nostale: "{c \<in> set cs. stale_part fs c} = {}"
      using all by (auto simp: part_matches_def stale_part_def split: option.splits)
    have fseq: "s_fs s1 = fs" using fs1 nostale by (intro ext) simp
    have present: "\<forall>c \<in> set cs. fs (c_filename c) \<noteq> None"
      using all by (auto simp: part_matches_def split: option.splits)
    have "res = Download_complete" "fs3 filename = Some (concat (map (part_bytes fs) cs))"
      using assemble_file_complete [OF assms(1) present] asm s2(1) fseq by simp_all
    then show ?thesis using e s2 pr1 f2 by simp
  qed
  show ?thesis
  proof (intro exI [of _ ?rep] conjI ballI impI)
    show "download_and_assemble net threads filename urls cs fs = Inr ?rep" by (rule rep)
  next
    fix c assume "c \<in> set cs" "part_matches fs c"
    then show "Some (c_id c) \<notin> event_chunk ` set (s_events (d_session ?rep))"
      using skip by simp
  next
    assume "\<forall>c \<in> set cs. part_matches fs c"
    from allm [OF this] show "s_events (d_session ?rep) = []" "d_failed ?rep = []"
      "s_progress (d_session ?rep) = sum_list (map c_size cs)"
      "d_assembled ?rep = Download_complete"
      "s_fs (d_session ?rep) filename = Some (concat (map (part_bytes fs) cs))"
      by simp_all
  qed
qed

theorem resume_skips_matching_parts_witness:
  "prepare_chunks ''out.bin'' 4 2 = Inr demo_chunks \<and> length [''u''] = 1 \<and> (0::int) < 1
   \<and> map (part_matches demo_fs_full) demo_chunks = [True, True]
   \<and> (\<exists>rep. download_and_assemble demo_net 1 ''out.bin'' [''u''] demo_chunks demo_fs_full = Inr rep
         \<and> s_events (d_session rep) = [] \<and> d_assembled rep = Download_complete
         \<and> s_fs (d_session rep) ''out.bin'' = Some ''abcd'')"
proof -
  have h1: "prepare_chunks ''out.bin'' 4 2 = Inr demo_chunks" by (rule demo_chunks_planned)
  have h2: "[''u''] \<noteq> []" and h3: "(0::int) < 1" by simp_all
  have m: "map (part_matches demo_fs_full) demo_chunks = [True, True]"
    by (simp add: demo_chunks_def demo_fs_full_def part_matches_def)
  then have all: "\<forall>c \<in> set demo_chunks. part_matches demo_fs_full c"
    by (simp add: demo_chunks_def)
  have parts: "concat (map (part_bytes demo_fs_full) demo_chunks) = ''abcd''"
    by (simp add: demo_chunks_def demo_fs_full_def part_bytes_def)
  from resume_skips_matching_parts [OF h1 h2 h3, of demo_net demo_fs_full] all parts
  have "\<exists>rep. download_and_assemble demo_net 1 ''out.bin'' [''u''] demo_chunks demo_fs_full = Inr rep
         \<and> s_events (d_session rep) = [] \<and> d_assembled rep = Download_complete
         \<and> s_fs (d_session rep) ''out.bin'' = Some ''abcd''"
    by auto
  then show ?thesis using h1 m by simp
qed

text \<open>
  Claim C10. In the resume check a part file that exists with a size other than the
  planned one is removed right before its chunk is submitted, and it is gone when the
  check ends. A chunk that the check skips (it is not among the submitted tasks) has its
  part file on disk, untouched, with exactly the planned size.
\<close>

theorem resume_removes_stale_parts:
  assumes "prepare_chunks filename total_size split_size = Inr cs" and "urls \<noteq> []"
  shows "\<exists>s' tasks. resume_loop urls cs (s, []) = Inr (s', tasks)
     \<and> (\<forall>c \<in> set cs. stale_part (s_fs s) c \<longrightarrow>
           s_fs s' (c_filename c) = None \<and> (pick_url urls c, c) \<in> set tasks
         \<and> (\<exists>pre post. s_events s' = s_events s @ pre
                @ [Removed (c_filename c), Submitted (c_id c) (pick_url urls c)] @ post))
     \<and> (\<forall>c \<in> set cs. c \<notin> snd ` set tasks \<longrightarrow>
           part_matches (s_fs s') c \<and> s_fs s' (c_filename c) = s_fs s (c_filename c))"
proof -
  have dist: "distinct (map c_filename cs)" using planner_paths(1) [OF assms(1)] .
  from resume_loop_result [OF assms(2) dist, of s "[]"] obtain s' ts where
    loop: "resume_loop urls cs (s, []) = Inr (s', ts)"
    and ts: "ts = map (\<lambda>c. (pick_url urls c, c)) (filter (\<lambda>c. \<not> part_matches (s_fs s) c) cs)"
    and fs': "\<forall>p. s_fs s' p = (if p \<in> c_filename ` {c \<in> set cs. stale_part (s_fs s) c} then None
                              else s_fs s p)"
    and ev: "s_events s' = s_events s @ concat (map (resume_events urls (s_fs s)) cs)"
    by auto
  have stale: "s_fs s' (c_filename c) = None \<and> (pick_url urls c, c) \<in> set ts
         \<and> (\<exists>pre post. s_events s' = s_events s @ pre
                @ [Removed (c_filename c), Submitted (c_id c) (pick_url urls c)] @ post)"
    if c: "c \<in> set cs" "stale_part (s_fs s) c" for c
  proof -
    have nm: "\<not> part_matches (s_fs s) c"
      using c(2) by (auto simp: part_matches_def stale_part_def split: option.splits)
    have a: "s_fs s' (c_filename c) = None" using fs' c by auto
    have b: "(pick_url urls c, c) \<in> set ts" using ts c(1) nm by auto
    from c(1) obtain xs ys where sp: "cs = xs @ c # ys" by (auto dest: split_list)
    have "resume_events urls (s_fs s) c = [Removed (c_filename c), Submitted (c_id c) (pick_url urls c)]"
      using c(2) nm by (simp add: resume_events_def)
    then have "s_events s' = s_events s @ concat (map (resume_events urls (s_fs s)) xs)
        @ [Removed (c_filename c), Submitted (c_id c) (pick_url urls c)]
        @ concat (map (resume_events urls (s_fs s)) ys)"
      using ev by (simp add: sp)
    then have "\<exists>pre post. s_events s' = s_events s @ pre
                @ [Removed (c_filename c), Submitted (c_id c) (pick_url urls c)] @ post"
      by blast
    with a b show ?thesis by blast
  qed
  have skipped: "part_matches (s_fs s') c \<and> s_fs s' (c_filename c) = s_fs s (c_filename c)"
    if c: "c \<in> set cs" "c \<notin> snd ` set ts" for c
  proof -
    have m: "part_matches (s_fs s) c"
    proof (rule ccontr)
      assume "\<not> part_matches (s_fs s) c"
      with c(1) ts have "(pick_url urls c, c) \<in> set ts" by auto
      then have "c \<in> snd ` set ts" by force
      with c(2) show False by simp
    qed
    have "c_filename c \<notin> c_filename ` {c' \<in> set cs. stale_part (s_fs s) c'}"
    proof
      assume "c_filename c \<in> c_filename ` {c' \<in> set cs. stale_part (s_fs s) c'}"
      then obtain c' where c': "c' \<in> set cs" "stale_part (s_fs s) c'" "c_filename c = c_filename c'"
        by auto
      have "inj_on c_filename (set cs)" using dist by (simp add: distinct_map)
      then have "c = c'" using c'(3) c(1) c'(1) by (rule inj_onD)
      with c'(2) m show False
        by (auto simp: part_matches_def stale_part_def split: option.splits)
    qed
    then have same: "s_fs s' (c_filename c) = s_fs s (c_filename c)" using fs' by simp
    then have "part_matches (s_fs s') c = part_matches (s_fs s) c"
      by (rule part_check_cong(1))
    with m same show ?thesis by simp
  qed
  show ?thesis
    using loop stale skipped by (intro exI [of _ s'] exI [of _ ts] conjI ballI impI) blast+
qed

theorem resume_removes_stale_parts_witness:
  "prepare_chunks ''out.bin'' 4 2 = Inr demo_chunks \<and> length [''u''] = 1
   \<and> map (stale_part demo_fs_short) demo_chunks = [True, False]
   \<and> (\<exists>s' tasks.
         resume_loop [''u''] demo_chunks (\<lparr>s_fs = demo_fs_short, s_progress = 0, s_events = []\<rparr>, [])
           = Inr (s', tasks)
         \<and> s_fs s' ''tmp/out.bin.part000'' = None
         \<and> map snd tasks = [demo_chunks ! 0]
         \<and> part_matches (s_fs s') (demo_chunks ! 1))"
proof -
  let ?s = "\<lparr>s_fs = demo_fs_short, s_progress = 0, s_events = []\<rparr>"
  have h1: "prepare_chunks ''out.bin'' 4 2 = Inr demo_chunks" by (rule demo_chunks_planned)
  have h2: "[''u''] \<noteq> []" by simp
  have st: "map (stale_part demo_fs_short) demo_chunks = [True, False]"
    by (simp add: demo_chunks_def demo_fs_short_def stale_part_def)
  from resume_removes_stale_parts [OF h1 h2, of ?s] obtain s' tasks where
    loop: "resume_loop [''u''] demo_chunks (?s, []) = Inr (s', tasks)"
    and stale: "\<forall>c \<in> set demo_chunks. stale_part (s_fs ?s) c \<longrightarrow> s_fs s' (c_filename c) = None"
    and skipped: "\<forall>c \<in> set demo_chunks. c \<notin> snd ` set tasks \<longrightarrow> part_matches (s_fs s') c"
    by blast
  have tasks: "map snd tasks = [demo_chunks ! 0]"
    using loop
    by (auto simp: demo_chunks_def demo_fs_short_def resume_step_def submit_def log_event_def
        Let_def)
  have a: "s_fs s' ''tmp/out.bin.part000'' = None"
    using stale st by (simp add: demo_chunks_def)
  have "set (map snd tasks) = {demo_chunks ! 0}" using tasks by simp
  then have "demo_chunks ! 1 \<notin> snd ` set tasks"
    by (simp add: demo_chunks_def)
  then have b: "part_matches (s_fs s') (demo_chunks ! 1)"
    using skipped by (simp add: demo_chunks_def)
  show ?thesis using h1 st loop tasks a b by auto
qed

subsection \<open>Link acquisition: one exchange for each candidate\<close>

lemma not_found_is_exchange: "not_found_event e \<Longrightarrow> is_exchange e"
  by (cases e) auto

lemma refresh_captcha_trace:
  "\<exists>new. ls_trace (refresh_captcha env st) = ls_trace st @ new \<and> (\<forall>e \<in> set new. \<not> is_exchange e)"
  by (auto simp: refresh_captcha_def request_captcha_def solve_captcha_def Let_def
      split: option.splits)

lemma refresh_captcha_trace_after:
  "\<exists>new. ls_trace (refresh_captcha env (st\<lparr>ls_trace := tr\<rparr>)) = tr @ new
     \<and> (\<forall>e \<in> set new. \<not> is_exchange e)"
  using refresh_captcha_trace [of env "st\<lparr>ls_trace := tr\<rparr>"] by simp

lemma exchange_step_no_challenge:
  "cd_challenge (ls_captcha st) = None \<Longrightarrow> exchange_step env fid p i st = (Continue, st)"
  by (simp add: exchange_step_def)

lemma exchange_step_trace:
  assumes "cd_challenge (ls_captcha st) = Some ch"
  shows "\<exists>new. ls_trace (snd (exchange_step env fid p i st))
           = ls_trace st @ Exchange (get_proxy_dict p) fid ch (ls_response st) (exchange_api env i) # new
         \<and> (\<forall>e \<in> set new. \<not> is_exchange e)
         \<and> (not_found_event (Exchange (get_proxy_dict p) fid ch (ls_response st) (exchange_api env i))
              \<longrightarrow> new = [] \<and> fst (exchange_step env fid p i st) = Exit (Raise FileNotFoundError))"
proof (cases "exchange_api env i")
  case None
  with assms show ?thesis by (simp add: exchange_step_def)
next
  case (Some resp)
  let ?tr = "ls_trace st @ [Exchange (get_proxy_dict p) fid ch (ls_response st) (Some resp)]"
  show ?thesis
  proof (cases "r_status resp = Some ''error''")
    case True
    let ?msg = "case r_message resp of Some m \<Rightarrow> m | None \<Rightarrow> []"
    consider "?msg = ''Invalid captcha code''"
      | "?msg \<noteq> ''Invalid captcha code''" "?msg = ''File not found''"
      | "?msg \<noteq> ''Invalid captcha code''" "?msg \<noteq> ''File not found''" by blast
    then show ?thesis
    proof cases
      case 1
      then have nf: "r_message resp \<noteq> Some ''File not found''" by (auto split: option.splits)
      from refresh_captcha_trace_after [where env = env and st = st and tr = ?tr] obtain new where
        "ls_trace (refresh_captcha env (st\<lparr>ls_trace := ?tr\<rparr>)) = ?tr @ new"
        "\<forall>e \<in> set new. \<not> is_exchange e" by blast
      then show ?thesis using assms Some True 1 nf
        by (intro exI [of _ new]) (simp add: exchange_step_def Let_def)
    next
      case 2
      then show ?thesis using assms Some True
        by (intro exI [of _ "[]"]) (simp add: exchange_step_def Let_def)
    next
      case 3
      then have nf: "r_message resp \<noteq> Some ''File not found''" by (auto split: option.splits)
      show ?thesis using assms Some True 3 nf
        by (intro exI [of _ "[]"]) (simp add: exchange_step_def Let_def)
    qed
  next
    case False
    show ?thesis
    proof (cases "r_time_wait resp")
      case None
      then show ?thesis using assms Some False
        by (intro exI [of _ "[]"]) (simp add: exchange_step_def Let_def split: option.splits)
    next
      case (Some w)
      show ?thesis
      proof (cases "w > 60 \<or> w < 0")
        case True
        then show ?thesis using assms \<open>exchange_api env i = Some resp\<close> False Some
          by (intro exI [of _ "[]"]) (auto simp: exchange_step_def Let_def)
      next
        case False
        then show ?thesis
          using assms \<open>exchange_api env i = Some resp\<close> \<open>r_status resp \<noteq> Some ''error''\<close> Some
          by (intro exI [of _ "[Wait w]"]) (simp add: exchange_step_def Let_def)
      qed
    qed
  qed
qed

lemma exchange_step_not_found:
  "\<exists>new. ls_trace (snd (exchange_step env fid p i st)) = ls_trace st @ new
     \<and> (if fst (exchange_step env fid p i st) = Exit (Raise FileNotFoundError)
         then \<exists>e. new = [e] \<and> not_found_event e
         else \<forall>e \<in> set new. \<not> not_found_event e)"
proof (cases "cd_challenge (ls_captcha st)")
  case None
  then show ?thesis by (simp add: exchange_step_no_challenge)
next
  case (Some ch)
  let ?ex = "Exchange (get_proxy_dict p) fid ch (ls_response st) (exchange_api env i)"
  from exchange_step_trace [OF Some, of env fid p i] obtain new where
    tr: "ls_trace (snd (exchange_step env fid p i st)) = ls_trace st @ ?ex # new"
    and ne: "\<forall>e \<in> set new. \<not> is_exchange e"
    and nf: "not_found_event ?ex \<longrightarrow> new = [] \<and> fst (exchange_step env fid p i st) = Exit (Raise FileNotFoundError)"
    by blast
  have nn: "\<forall>e \<in> set new. \<not> not_found_event e" using ne not_found_is_exchange by blast
  show ?thesis
  proof (cases "not_found_event ?ex")
    case True
    with nf tr show ?thesis by (intro exI [of _ "[?ex]"]) simp
  next
    case False
    have "fst (exchange_step env fid p i st) \<noteq> Exit (Raise FileNotFoundError)"
    proof
      assume r: "fst (exchange_step env fid p i st) = Exit (Raise FileNotFoundError)"
      then obtain resp where resp: "exchange_api env i = Some resp"
        "r_status resp = Some ''error''" "r_message resp = Some ''File not found''"
        using Some
        by (auto simp: exchange_step_def Let_def split: option.splits if_splits)
      with False show False by simp
    qed
    with False nn tr show ?thesis by (intro exI [of _ "?ex # new"]) simp
  qed
qed

lemma exchange_loop_not_found:
  "\<exists>new. ls_trace (snd (exchange_loop env fid ps i st)) = ls_trace st @ new
     \<and> (if fst (exchange_loop env fid ps i st) = Some (Raise FileNotFoundError)
         then new \<noteq> [] \<and> not_found_event (last new) \<and> (\<forall>e \<in> set (butlast new). \<not> not_found_event e)
         else \<forall>e \<in> set new. \<not> not_found_event e)"
proof (induction ps arbitrary: i st)
  case Nil
  show ?case by simp
next
  case (Cons p ps)
  obtain r st1 where step: "exchange_step env fid p i st = (r, st1)"
    by (cases "exchange_step env fid p i st")
  from exchange_step_not_found [of env fid p i st] step obtain new1 where
    t1: "ls_trace st1 = ls_trace st @ new1"
    and n1: "if r = Exit (Raise FileNotFoundError) then \<exists>e. new1 = [e] \<and> not_found_event e
             else \<forall>e \<in> set new1. \<not> not_found_event e"
    by auto
  show ?case
  proof (cases r)
    case Continue
    from Cons.IH [of "Suc i" st1] obtain new2 where
      t2: "ls_trace (snd (exchange_loop env fid ps (Suc i) st1)) = ls_trace st1 @ new2"
      and n2: "if fst (exchange_loop env fid ps (Suc i) st1) = Some (Raise FileNotFoundError)
         then new2 \<noteq> [] \<and> not_found_event (last new2) \<and> (\<forall>e \<in> set (butlast new2). \<not> not_found_event e)
         else \<forall>e \<in> set new2. \<not> not_found_event e"
      by blast
    have clean: "\<forall>e \<in> set new1. \<not> not_found_event e" using n1 Continue by simp
    have eq: "exchange_loop env fid (p # ps) i st = exchange_loop env fid ps (Suc i) st1"
      using step Continue by simp
    show ?thesis
    proof (cases "fst (exchange_loop env fid ps (Suc i) st1) = Some (Raise FileNotFoundError)")
      case True
      with n2 have "new2 \<noteq> []" "not_found_event (last new2)"
        "\<forall>e \<in> set (butlast new2). \<not> not_found_event e" by simp_all
      then have "new1 @ new2 \<noteq> [] \<and> not_found_event (last (new1 @ new2))
          \<and> (\<forall>e \<in> set (butlast (new1 @ new2)). \<not> not_found_event e)"
        using clean by (auto simp: butlast_append)
      then show ?thesis using True t1 t2 eq by (intro exI [of _ "new1 @ new2"]) simp
    next
      case False
      with n2 clean have "\<forall>e \<in> set (new1 @ new2). \<not> not_found_event e" by auto
      then show ?thesis using False t1 t2 eq by (intro exI [of _ "new1 @ new2"]) simp
    qed
  next
    case (Exit e)
    have eq: "exchange_loop env fid (p # ps) i st = (Some e, st1)" using step Exit by simp
    show ?thesis
    proof (cases "e = Raise FileNotFoundError")
      case True
      with n1 Exit obtain ev where "new1 = [ev]" "not_found_event ev" by auto
      then show ?thesis using True t1 eq by (intro exI [of _ new1]) simp
    next
      case False
      with n1 Exit have "\<forall>e \<in> set new1. \<not> not_found_event e" by simp
      then show ?thesis using False t1 eq by (intro exI [of _ new1]) simp
    qed
  qed
qed

lemma initial_captcha_trace:
  "\<forall>e \<in> set (ls_trace (fst (initial_captcha env))). \<not> is_exchange e"
  by (auto simp: initial_captcha_def request_captcha_def solve_captcha_def Let_def
      split: option.splits)

lemma initial_captcha_error:
  "snd (initial_captcha env) \<noteq> Some FileNotFoundError"
  by (auto simp: initial_captcha_def request_captcha_def solve_captcha_def Let_def
      split: option.splits)

lemma mint_not_found: "\<forall>e \<in> set (map (\<lambda>j. Mint pd fid k) js). \<not> not_found_event e"
  by simp

lemma generate_not_found:
  "if fst (generate_download_urls env pm fid count) = Inl FileNotFoundError
   then snd (generate_download_urls env pm fid count) \<noteq> []
      \<and> not_found_event (last (snd (generate_download_urls env pm fid count)))
      \<and> (\<forall>e \<in> set (butlast (snd (generate_download_urls env pm fid count))). \<not> not_found_event e)
   else \<forall>e \<in> set (snd (generate_download_urls env pm fid count)). \<not> not_found_event e"
proof -
  let ?ps = "case pm of Some ps \<Rightarrow> map Some ps | None \<Rightarrow> [None]"
  obtain st eo where init: "initial_captcha env = (st, eo)" by (cases "initial_captcha env")
  have clean0: "\<forall>e \<in> set (ls_trace st). \<not> not_found_event e"
    using initial_captcha_trace [of env] init not_found_is_exchange by auto
  show ?thesis
  proof (cases eo)
    case (Some err)
    then have "err \<noteq> FileNotFoundError" using initial_captcha_error [of env] init by auto
    then show ?thesis using init Some clean0 by (simp add: generate_download_urls_def)
  next
    case None
    obtain r st' where loop: "exchange_loop env fid ?ps 0 st = (r, st')"
      by (cases "exchange_loop env fid ?ps 0 st")
    from exchange_loop_not_found [of env fid ?ps 0 st] loop obtain new where
      tr: "ls_trace st' = ls_trace st @ new"
      and nf: "if r = Some (Raise FileNotFoundError)
         then new \<noteq> [] \<and> not_found_event (last new) \<and> (\<forall>e \<in> set (butlast new). \<not> not_found_event e)
         else \<forall>e \<in> set new. \<not> not_found_event e"
      by auto
    show ?thesis
    proof (cases "r = Some (Raise FileNotFoundError)")
      case True
      then have g: "generate_download_urls env pm fid count = (Inl FileNotFoundError, ls_trace st')"
        using init None loop by (simp add: generate_download_urls_def)
      from True nf have "new \<noteq> []" "not_found_event (last new)"
        "\<forall>e \<in> set (butlast new). \<not> not_found_event e" by simp_all
      then have "ls_trace st' \<noteq> [] \<and> not_found_event (last (ls_trace st'))
          \<and> (\<forall>e \<in> set (butlast (ls_trace st')). \<not> not_found_event e)"
        using clean0 by (auto simp: tr butlast_append)
      then show ?thesis by (simp add: g)
    next
      case False
      with nf clean0 have clean: "\<forall>e \<in> set (ls_trace st'). \<not> not_found_event e"
        by (auto simp: tr)
      have "fst (generate_download_urls env pm fid count) \<noteq> Inl FileNotFoundError
          \<and> (\<exists>extra. snd (generate_download_urls env pm fid count) = ls_trace st' @ extra
                \<and> (\<forall>e \<in> set extra. \<not> not_found_event e))"
      proof (cases r)
        case None
        then show ?thesis using init \<open>eo = None\<close> loop by (simp add: generate_download_urls_def)
      next
        case (Some ex)
        show ?thesis
        proof (cases ex)
          case (Raise err)
          with False Some have "err \<noteq> FileNotFoundError" by simp
          then show ?thesis using init \<open>eo = None\<close> loop Some Raise
            by (simp add: generate_download_urls_def)
        next
          case (Return_url u)
          then show ?thesis using init \<open>eo = None\<close> loop Some
            by (simp add: generate_download_urls_def)
        next
          case (Break key wp)
          show ?thesis
          proof (cases "key = None \<or> key = Some []")
            case True
            then show ?thesis using init \<open>eo = None\<close> loop Some Break
              by (auto simp: generate_download_urls_def)
          next
            case False
            then obtain k where k: "key = Some k" "k \<noteq> []" by auto
            have "snd (generate_download_urls env pm fid count)
                    = ls_trace st' @ map (\<lambda>j. Mint (get_proxy_dict wp) fid k) [0..<nat count]"
              "fst (generate_download_urls env pm fid count) = Inr (mint_urls env [0..<nat count])"
              using init \<open>eo = None\<close> loop Some Break k
              by (simp_all add: generate_download_urls_def)
            then show ?thesis using mint_not_found by auto
          qed
        qed
      qed
      then show ?thesis using clean by auto
    qed
  qed
qed

lemma start_trace:
  "run_link_trace (start cfg w fs) = []
   \<or> (\<exists>f. resolve_filename cfg w = Inr f
         \<and> run_link_trace (start cfg w fs)
             = snd (generate_download_urls (w_remote w) (prepare_proxies cfg w)
                      (cfg_file_id cfg) (cfg_threads cfg)))"
  by (simp add: start_def split: sum.splits list.splits option.splits prod.splits)

lemma start_link_not_found:
  assumes "resolve_filename cfg w = Inr f"
    and "fst (generate_download_urls (w_remote w) (prepare_proxies cfg w)
                (cfg_file_id cfg) (cfg_threads cfg)) = Inl FileNotFoundError"
  shows "run_outcome (start cfg w fs) = Link_not_found \<and> run_fs (start cfg w fs) = fs"
proof -
  obtain res tr where g: "generate_download_urls (w_remote w) (prepare_proxies cfg w)
                (cfg_file_id cfg) (cfg_threads cfg) = (res, tr)"
    by (cases "generate_download_urls (w_remote w) (prepare_proxies cfg w)
                (cfg_file_id cfg) (cfg_threads cfg)")
  with assms(2) have "res = Inl FileNotFoundError" by simp
  with assms(1) g show ?thesis by (simp add: start_def)
qed

text \<open>
  Claim C7. An exchange that is answered with status \<^verbatim>\<open>error\<close> and message
  \<^verbatim>\<open>File not found\<close> is the last thing link acquisition does: no exchange, captcha request
  or URL request follows it in the trace, and the result is \<^verbatim>\<open>FileNotFoundError\<close>.
  The session then ends as "file not found during link generation", before any chunk is
  planned or fetched, with the disk as it was.
\<close>

theorem not_found_ends_session:
  "(snd (generate_download_urls env pm fid count) = pre @ e # post \<and> not_found_event e \<longrightarrow>
      post = [] \<and> fst (generate_download_urls env pm fid count) = Inl FileNotFoundError)
   \<and> (run_link_trace (start cfg w fs) = pre' @ e' # post' \<and> not_found_event e' \<longrightarrow>
      post' = [] \<and> run_outcome (start cfg w fs) = Link_not_found \<and> run_fs (start cfg w fs) = fs)"
proof -
  have gen: "post = [] \<and> fst (generate_download_urls env pm fid count) = Inl FileNotFoundError"
    if tr: "snd (generate_download_urls env pm fid count) = pre @ e # post" and nf: "not_found_event e"
    for env pm fid count pre e post
  proof -
    let ?g = "generate_download_urls env pm fid count"
    have mem: "e \<in> set (snd ?g)" using tr by simp
    have res: "fst ?g = Inl FileNotFoundError"
    proof (rule ccontr)
      assume "fst ?g \<noteq> Inl FileNotFoundError"
      with generate_not_found [of env pm fid count] have "\<forall>e \<in> set (snd ?g). \<not> not_found_event e"
        by simp
      with mem nf show False by blast
    qed
    with generate_not_found [of env pm fid count]
    have bl: "\<forall>e \<in> set (butlast (snd ?g)). \<not> not_found_event e" by simp
    have "post = []"
    proof (rule ccontr)
      assume "post \<noteq> []"
      then have "butlast (snd ?g) = pre @ e # butlast post" by (simp add: tr butlast_append)
      then have "e \<in> set (butlast (snd ?g))" by simp
      with bl nf show False by blast
    qed
    with res show ?thesis by simp
  qed
  have sess: "post' = [] \<and> run_outcome (start cfg w fs) = Link_not_found \<and> run_fs (start cfg w fs) = fs"
    if tr: "run_link_trace (start cfg w fs) = pre' @ e' # post'" and nf: "not_found_event e'"
  proof -
    from start_trace [of cfg w fs] tr obtain f where f: "resolve_filename cfg w = Inr f"
      and eq: "run_link_trace (start cfg w fs)
             = snd (generate_download_urls (w_remote w) (prepare_proxies cfg w)
                      (cfg_file_id cfg) (cfg_threads cfg))"
      by auto
    from gen [of "w_remote w" "prepare_proxies cfg w" "cfg_file_id cfg" "cfg_threads cfg" pre' e' post']
      tr eq nf
    have "post' = []" "fst (generate_download_urls (w_remote w) (prepare_proxies cfg w)
                (cfg_file_id cfg) (cfg_threads cfg)) = Inl FileNotFoundError"
      by simp_all
    with start_link_not_found [OF f, of fs] show ?thesis by simp
  qed
  show ?thesis using gen sess by blast
qed

lemma generate_not_found_demo:
  "generate_download_urls remote_not_found None ''F'' 1
     = (Inl FileNotFoundError,
        [RequestCaptcha, SolveCaptcha ''c1'',
         Exchange None ''F'' ''ch1'' ''a1'' (Some not_found_response)])"
  by (simp add: generate_download_urls_def initial_captcha_def request_captcha_def
      solve_captcha_def exchange_step_def remote_not_found_def demo_captcha_def demo_solver_def
      not_found_response_def get_proxy_dict_def Let_def)

theorem not_found_ends_session_witness:
  "snd (generate_download_urls remote_not_found None ''F'' 1)
      = [RequestCaptcha, SolveCaptcha ''c1'']
          @ Exchange None ''F'' ''ch1'' ''a1'' (Some not_found_response) # []
   \<and> not_found_event (Exchange None ''F'' ''ch1'' ''a1'' (Some not_found_response))
   \<and> fst (generate_download_urls remote_not_found None ''F'' 1) = Inl FileNotFoundError
   \<and> run_link_trace (start demo_config world_not_found demo_fs_full)
      = [RequestCaptcha, SolveCaptcha ''c1'']
          @ Exchange None ''F'' ''ch1'' ''a1'' (Some not_found_response) # []
   \<and> run_outcome (start demo_config world_not_found demo_fs_full) = Link_not_found
   \<and> run_fs (start demo_config world_not_found demo_fs_full) = demo_fs_full"
proof -
  let ?e = "Exchange None ''F'' ''ch1'' ''a1'' (Some not_found_response)"
  have g: "snd (generate_download_urls remote_not_found None ''F'' 1)
      = [RequestCaptcha, SolveCaptcha ''c1''] @ ?e # []"
    by (simp add: generate_not_found_demo)
  have nf: "not_found_event ?e" by (simp add: not_found_response_def)
  have s: "run_link_trace (start demo_config world_not_found demo_fs_full)
      = [RequestCaptcha, SolveCaptcha ''c1''] @ ?e # []"
    by (simp add: start_def resolve_filename_def prepare_proxies_def demo_config_def
        world_not_found_def generate_not_found_demo)
  from not_found_ends_session [of remote_not_found None "''F''" 1
      "[RequestCaptcha, SolveCaptcha ''c1'']" ?e "[]" demo_config world_not_found demo_fs_full
      "[RequestCaptcha, SolveCaptcha ''c1'']" ?e "[]"] g nf s
  have "fst (generate_download_urls remote_not_found None ''F'' 1) = Inl FileNotFoundError
    \<and> run_outcome (start demo_config world_not_found demo_fs_full) = Link_not_found
    \<and> run_fs (start demo_config world_not_found demo_fs_full) = demo_fs_full"
    by blast
  with g nf s show ?thesis by blast
qed

subsection \<open>An empty proxy list\<close>

lemma initial_captcha_ok:
  assumes "captcha_api env 0 = Some cd" "cd_captcha_url cd = Some u" "solver env 0 = Some a"
  shows "initial_captcha env
           = (\<lparr>ls_captcha = cd, ls_response = a, ls_captchas = 1, ls_solves = 1,
               ls_trace = [RequestCaptcha, SolveCaptcha u]\<rparr>, None)"
  using assms
  by (simp add: initial_captcha_def request_captcha_def solve_captcha_def Let_def)

lemma generate_empty_pool:
  "exchanges (snd (generate_download_urls env (Some []) fid count)) = []
   \<and> (\<exists>err. fst (generate_download_urls env (Some []) fid count) = Inl err)"
proof -
  obtain st eo where init: "initial_captcha env = (st, eo)" by (cases "initial_captcha env")
  have "exchanges (ls_trace st) = []"
    using initial_captcha_trace [of env] init by (simp add: exchanges_def)
  then show ?thesis using init
    by (cases eo) (simp_all add: generate_download_urls_def)
qed

lemma generate_trace_tail:
  assumes "initial_captcha env = (st, None)"
    and "exchange_loop env fid (case pm of Some ps \<Rightarrow> map Some ps | None \<Rightarrow> [None]) 0 st = (r, st')"
  shows "\<exists>extra. snd (generate_download_urls env pm fid count) = ls_trace st' @ extra
           \<and> (\<forall>e \<in> set extra. \<not> is_exchange e)"
proof (cases r)
  case None
  then show ?thesis using assms by (simp add: generate_download_urls_def)
next
  case (Some ex)
  show ?thesis
  proof (cases ex)
    case (Raise err)
    then show ?thesis using assms Some by (simp add: generate_download_urls_def)
  next
    case (Return_url u)
    then show ?thesis using assms Some by (simp add: generate_download_urls_def)
  next
    case (Break key wp)
    show ?thesis
    proof (cases "key = None \<or> key = Some []")
      case True
      then show ?thesis using assms Some Break by (auto simp: generate_download_urls_def)
    next
      case False
      then obtain k where k: "key = Some k" "k \<noteq> []" by auto
      have "snd (generate_download_urls env pm fid count)
              = ls_trace st' @ map (\<lambda>j. Mint (get_proxy_dict wp) fid k) [0..<nat count]"
        using assms Some Break k by (simp add: generate_download_urls_def)
      moreover have "\<forall>e \<in> set (map (\<lambda>j. Mint (get_proxy_dict wp) fid k) [0..<nat count]). \<not> is_exchange e"
        by simp
      ultimately show ?thesis by blast
    qed
  qed
qed

lemma generate_direct_once:
  assumes "captcha_api env 0 = Some cd" "cd_captcha_url cd = Some u" "solver env 0 = Some a"
    and "cd_challenge cd = Some ch"
  shows "exchanges (snd (generate_download_urls env None fid count))
           = [Exchange None fid ch a (exchange_api env 0)]"
proof -
  let ?st = "\<lparr>ls_captcha = cd, ls_response = a, ls_captchas = 1, ls_solves = 1,
               ls_trace = [RequestCaptcha, SolveCaptcha u]\<rparr>"
  have init: "initial_captcha env = (?st, None)" by (rule initial_captcha_ok [OF assms(1,2,3)])
  have ch: "cd_challenge (ls_captcha ?st) = Some ch" using assms(4) by simp
  obtain r st1 where step: "exchange_step env fid None 0 ?st = (r, st1)"
    by (cases "exchange_step env fid None 0 ?st")
  from exchange_step_trace [OF ch, of env fid None 0] step obtain new where
    tr: "ls_trace st1 = [RequestCaptcha, SolveCaptcha u] @ Exchange None fid ch a (exchange_api env 0) # new"
    and ne: "\<forall>e \<in> set new. \<not> is_exchange e"
    by (auto simp: get_proxy_dict_def)
  obtain r' where loop: "exchange_loop env fid [None] 0 ?st = (r', st1)"
    using step by (cases r) simp_all
  from generate_trace_tail [of env ?st fid None r' st1 count] init loop obtain extra where
    "snd (generate_download_urls env None fid count) = ls_trace st1 @ extra"
    "\<forall>e \<in> set extra. \<not> is_exchange e"
    by auto
  then show ?thesis using tr ne by (simp add: exchanges_def)
qed

text \<open>
  Claim C5 says that an empty proxy list leads to one direct exchange attempt. With a
  proxy manager whose list is empty the loop over the candidates has nothing to go
  through: after the captcha has been requested and solved, the call raises \<^verbatim>\<open>K2SError\<close>
  without any exchange.
\<close>

theorem empty_pool_counterexample:
  "generate_download_urls remote_invalid_first (Some []) ''F'' 1
     = (Inl K2SError, [RequestCaptcha, SolveCaptcha ''c1''])"
  by (simp add: generate_download_urls_def initial_captcha_def request_captcha_def
      solve_captcha_def remote_invalid_first_def demo_captcha_def demo_solver_def Let_def)

text \<open>
  Claim C5 as amended. With a proxy manager whose list is empty, link acquisition makes
  no exchange attempt and always fails; when the initial captcha was obtained and solved,
  it fails with \<^verbatim>\<open>K2SError\<close> right after that. Exactly one exchange attempt, a direct one,
  is made when there is no proxy manager at all (proxies disabled).
\<close>

theorem empty_pool_no_attempt:
  "exchanges (snd (generate_download_urls env (Some []) fid count)) = []
   \<and> (\<exists>err. fst (generate_download_urls env (Some []) fid count) = Inl err)
   \<and> (captcha_api env 0 = Some cd \<and> cd_captcha_url cd = Some u \<and> solver env 0 = Some a \<longrightarrow>
        generate_download_urls env (Some []) fid count
          = (Inl K2SError, [RequestCaptcha, SolveCaptcha u])
        \<and> (cd_challenge cd = Some ch \<longrightarrow>
             exchanges (snd (generate_download_urls env None fid count))
               = [Exchange None fid ch a (exchange_api env 0)]))"
proof -
  have "generate_download_urls env (Some []) fid count
          = (Inl K2SError, [RequestCaptcha, SolveCaptcha u])"
    if "captcha_api env 0 = Some cd" "cd_captcha_url cd = Some u" "solver env 0 = Some a"
    using initial_captcha_ok [OF that] by (simp add: generate_download_urls_def)
  then show ?thesis
    using generate_empty_pool [of env fid count] generate_direct_once [of env cd u a ch fid count]
    by blast
qed

theorem empty_pool_no_attempt_witness:
  "captcha_api remote_invalid_first 0 = Some \<lparr>cd_captcha_url = Some ''c1'', cd_challenge = Some ''ch1''\<rparr>
   \<and> solver remote_invalid_first 0 = Some ''a1''
   \<and> generate_download_urls remote_invalid_first (Some []) ''F'' 1
        = (Inl K2SError, [RequestCaptcha, SolveCaptcha ''c1''])
   \<and> exchanges (snd (generate_download_urls remote_invalid_first None ''F'' 1))
        = [Exchange None ''F'' ''ch1'' ''a1'' (Some invalid_captcha_response)]"
proof -
  let ?cd = "\<lparr>cd_captcha_url = Some ''c1'', cd_challenge = Some ''ch1''\<rparr>"
  have h: "captcha_api remote_invalid_first 0 = Some ?cd" "cd_captcha_url ?cd = Some ''c1''"
    "solver remote_invalid_first 0 = Some ''a1''" "cd_challenge ?cd = Some ''ch1''"
    by (simp_all add: remote_invalid_first_def demo_captcha_def demo_solver_def)
  have x: "exchange_api remote_invalid_first 0 = Some invalid_captcha_response"
    by (simp add: remote_invalid_first_def)
  from empty_pool_no_attempt [of remote_invalid_first "''F''" 1 ?cd "''c1''" "''a1''" "''ch1''"] h x
  have "generate_download_urls remote_invalid_first (Some []) ''F'' 1
        = (Inl K2SError, [RequestCaptcha, SolveCaptcha ''c1''])
   \<and> exchanges (snd (generate_download_urls remote_invalid_first None ''F'' 1))
        = [Exchange None ''F'' ''ch1'' ''a1'' (Some invalid_captcha_response)]"
    by simp
  with h show ?thesis by simp
qed

subsection \<open>After an invalid captcha\<close>

lemma exchange_step_invalid:
  assumes "cd_challenge (ls_captcha st) = Some ch" "exchange_api env i = Some resp"
    and "r_status resp = Some ''error''" "r_message resp = Some ''Invalid captcha code''"
  shows "exchange_step env fid p i st
           = (Continue,
              refresh_captcha env
                (st\<lparr>ls_trace := ls_trace st @
                      [Exchange (get_proxy_dict p) fid ch (ls_response st) (Some resp)]\<rparr>))"
  using assms by (simp add: exchange_step_def Let_def)

lemma refresh_captcha_ok:
  assumes "captcha_api env (ls_captchas st) = Some cd" "cd_captcha_url cd = Some u"
    and "solver env (ls_solves st) = Some a"
  shows "refresh_captcha env st
           = st\<lparr>ls_captcha := cd, ls_response := a, ls_captchas := Suc (ls_captchas st),
                 ls_solves := Suc (ls_solves st),
                 ls_trace := ls_trace st @ [RequestCaptcha, SolveCaptcha u]\<rparr>"
  using assms by (simp add: refresh_captcha_def request_captcha_def solve_captcha_def Let_def)

lemma exchange_loop_first:
  assumes "cd_challenge (ls_captcha st) = Some ch"
  shows "\<exists>new. ls_trace (snd (exchange_loop env fid (p # rest) i st))
           = ls_trace st @ Exchange (get_proxy_dict p) fid ch (ls_response st) (exchange_api env i) # new"
proof -
  obtain r st1 where step: "exchange_step env fid p i st = (r, st1)"
    by (cases "exchange_step env fid p i st")
  from exchange_step_trace [OF assms, of env fid p i] step obtain new1 where
    t1: "ls_trace st1 = ls_trace st @ Exchange (get_proxy_dict p) fid ch (ls_response st) (exchange_api env i) # new1"
    by auto
  show ?thesis
  proof (cases r)
    case Continue
    from exchange_loop_not_found [of env fid rest "Suc i" st1] obtain new2 where
      "ls_trace (snd (exchange_loop env fid rest (Suc i) st1)) = ls_trace st1 @ new2" by blast
    then show ?thesis using step Continue t1 by simp
  next
    case (Exit e)
    then show ?thesis using step t1 by simp
  qed
qed

text \<open>
  Claim C4 says that after "Invalid captcha code" the exchange is tried again at the same
  candidate with the fresh challenge, and the code announces as much (it prints
  \<^verbatim>\<open>Invalid captcha. Retrying...\<close>, requests a fresh captcha and has it solved). It does
  not do it: on a direct connection (no proxy manager, one candidate) the \<^verbatim>\<open>continue\<close> of
  the \<^verbatim>\<open>for\<close> loop leaves the only candidate behind, so there is no second exchange, the
  fresh answer is never submitted and the call raises \<^verbatim>\<open>K2SError\<close>, although the server
  would have handed out a key. With two proxies the fresh challenge goes to the second
  proxy, never again to the first.
\<close>

theorem invalid_captcha_not_retried:
  "generate_download_urls remote_invalid_first None ''F'' 1
     = (Inl K2SError,
        [RequestCaptcha, SolveCaptcha ''c1'',
         Exchange None ''F'' ''ch1'' ''a1'' (Some invalid_captcha_response),
         RequestCaptcha, SolveCaptcha ''c2''])
   \<and> exchanges (snd (generate_download_urls remote_invalid_first (Some [''p1'', ''p2'']) ''F'' 1))
     = [Exchange (Some ''http://p1'') ''F'' ''ch1'' ''a1'' (Some invalid_captcha_response),
        Exchange (Some ''http://p2'') ''F'' ''ch2'' ''a2'' (Some key_response)]"
  by (simp add: generate_download_urls_def initial_captcha_def request_captcha_def
      solve_captcha_def refresh_captcha_def exchange_step_def remote_invalid_first_def
      demo_captcha_def demo_solver_def invalid_captcha_response_def key_response_def
      get_proxy_dict_def exchanges_def Let_def)

text \<open>
  The same for every run: when the exchange for a candidate is answered "Invalid captcha
  code", the loop goes on with the rest of the candidate sequence, and the next exchange,
  if the fresh captcha was obtained and solved, is the one for the next candidate.
\<close>

lemma invalid_captcha_advances:
  assumes "cd_challenge (ls_captcha st) = Some ch" and "exchange_api env i = Some resp"
    and "r_status resp = Some ''error''" and "r_message resp = Some ''Invalid captcha code''"
  shows "exchange_loop env fid (p # rest) i st
           = exchange_loop env fid rest (Suc i)
               (refresh_captcha env
                  (st\<lparr>ls_trace := ls_trace st @
                        [Exchange (get_proxy_dict p) fid ch (ls_response st) (Some resp)]\<rparr>))
     \<and> (captcha_api env (ls_captchas st) = Some cd \<and> cd_captcha_url cd = Some u
          \<and> solver env (ls_solves st) = Some a \<and> cd_challenge cd = Some ch' \<longrightarrow>
         (\<exists>new. ls_trace (snd (exchange_loop env fid (p # q # qs) i st))
            = ls_trace st
              @ [Exchange (get_proxy_dict p) fid ch (ls_response st) (Some resp),
                 RequestCaptcha, SolveCaptcha u,
                 Exchange (get_proxy_dict q) fid ch' a (exchange_api env (Suc i))]
              @ new))"
proof -
  let ?st1 = "st\<lparr>ls_trace := ls_trace st @
                        [Exchange (get_proxy_dict p) fid ch (ls_response st) (Some resp)]\<rparr>"
  have adv: "exchange_loop env fid (p # ps) i st
           = exchange_loop env fid ps (Suc i) (refresh_captcha env ?st1)" for ps
    using exchange_step_invalid [OF assms, of fid p] by simp
  have nxt: "\<exists>new. ls_trace (snd (exchange_loop env fid (p # q # qs) i st))
            = ls_trace st
              @ [Exchange (get_proxy_dict p) fid ch (ls_response st) (Some resp),
                 RequestCaptcha, SolveCaptcha u,
                 Exchange (get_proxy_dict q) fid ch' a (exchange_api env (Suc i))]
              @ new"
    if fresh: "captcha_api env (ls_captchas st) = Some cd" "cd_captcha_url cd = Some u"
      "solver env (ls_solves st) = Some a" "cd_challenge cd = Some ch'"
  proof -
    let ?st2 = "?st1\<lparr>ls_captcha := cd, ls_response := a, ls_captchas := Suc (ls_captchas ?st1),
                 ls_solves := Suc (ls_solves ?st1),
                 ls_trace := ls_trace ?st1 @ [RequestCaptcha, SolveCaptcha u]\<rparr>"
    have r: "refresh_captcha env ?st1 = ?st2"
      using fresh(1,2,3) by (intro refresh_captcha_ok) simp_all
    have c2: "cd_challenge (ls_captcha ?st2) = Some ch'" using fresh(4) by simp
    from exchange_loop_first [OF c2, of env fid q qs "Suc i"] obtain new where
      "ls_trace (snd (exchange_loop env fid (q # qs) (Suc i) ?st2))
         = ls_trace ?st2 @ Exchange (get_proxy_dict q) fid ch' (ls_response ?st2) (exchange_api env (Suc i)) # new"
      by blast
    then show ?thesis using adv [of "q # qs"] r by simp
  qed
  show ?thesis using adv [of rest] nxt by blast
qed

lemma invalid_captcha_advances_example:
  "exchange_api remote_invalid_first 0 = Some invalid_captcha_response
   \<and> r_status invalid_captcha_response = Some ''error''
   \<and> r_message invalid_captcha_response = Some ''Invalid captcha code''
   \<and> captcha_api remote_invalid_first 1 = Some \<lparr>cd_captcha_url = Some ''c2'', cd_challenge = Some ''ch2''\<rparr>
   \<and> solver remote_invalid_first 1 = Some ''a2''
   \<and> (\<exists>new. ls_trace (snd (exchange_loop remote_invalid_first ''F'' [Some ''p1'', Some ''p2''] 0
          \<lparr>ls_captcha = \<lparr>cd_captcha_url = Some ''c1'', cd_challenge = Some ''ch1''\<rparr>,
           ls_response = ''a1'', ls_captchas = 1, ls_solves = 1,
           ls_trace = [RequestCaptcha, SolveCaptcha ''c1'']\<rparr>))
        = [RequestCaptcha, SolveCaptcha ''c1'']
          @ [Exchange (Some ''http://p1'') ''F'' ''ch1'' ''a1'' (Some invalid_captcha_response),
             RequestCaptcha, SolveCaptcha ''c2'',
             Exchange (Some ''http://p2'') ''F'' ''ch2'' ''a2'' (Some key_response)]
          @ new)"
proof -
  let ?cd1 = "\<lparr>cd_captcha_url = Some ''c1'', cd_challenge = Some ''ch1''\<rparr>"
  let ?cd2 = "\<lparr>cd_captcha_url = Some ''c2'', cd_challenge = Some ''ch2''\<rparr>"
  let ?st = "\<lparr>ls_captcha = ?cd1, ls_response = ''a1'', ls_captchas = 1, ls_solves = 1,
           ls_trace = [RequestCaptcha, SolveCaptcha ''c1'']\<rparr>"
  have h: "cd_challenge (ls_captcha ?st) = Some ''ch1''"
    "exchange_api remote_invalid_first 0 = Some invalid_captcha_response"
    "r_status invalid_captcha_response = Some ''error''"
    "r_message invalid_captcha_response = Some ''Invalid captcha code''"
    by (simp_all add: remote_invalid_first_def invalid_captcha_response_def)
  have f: "captcha_api remote_invalid_first (ls_captchas ?st) = Some ?cd2"
    "cd_captcha_url ?cd2 = Some ''c2''" "solver remote_invalid_first (ls_solves ?st) = Some ''a2''"
    "cd_challenge ?cd2 = Some ''ch2''"
    "exchange_api remote_invalid_first (Suc 0) = Some key_response"
    by (simp_all add: remote_invalid_first_def demo_captcha_def demo_solver_def)
  have pd: "get_proxy_dict (Some ''p1'') = Some ''http://p1''"
    "get_proxy_dict (Some ''p2'') = Some ''http://p2''"
    by (simp_all add: get_proxy_dict_def)
  from invalid_captcha_advances [OF h, of "''F''" "Some ''p1''" "[Some ''p2'']" ?cd2 "''c2''" "''a2''"
      "''ch2''" "Some ''p2''" "[]", THEN conjunct2] f pd
  have "\<exists>new. ls_trace (snd (exchange_loop remote_invalid_first ''F'' [Some ''p1'', Some ''p2''] 0 ?st))
        = [RequestCaptcha, SolveCaptcha ''c1'']
          @ [Exchange (Some ''http://p1'') ''F'' ''ch1'' ''a1'' (Some invalid_captcha_response),
             RequestCaptcha, SolveCaptcha ''c2'',
             Exchange (Some ''http://p2'') ''F'' ''ch2'' ''a2'' (Some key_response)]
          @ new"
    by (simp del: exchange_loop.simps)
  moreover have "captcha_api remote_invalid_first 1 = Some ?cd2"
    "solver remote_invalid_first 1 = Some ''a2''"
    using f by simp_all
  ultimately show ?thesis using h by (simp del: exchange_loop.simps)
qed

end
